theory Spec2Isabelle
  imports Main "HOL-Library.Sublist" "HOL-Library.Multiset" "HOL-Library.AList"
    "HOL-Library.List_Lexorder" "HOL-Library.Char_ord" "HOL-Library.Product_Lexorder"
begin

section \<open>Decoded documents and errors\<close>

text \<open>
  A decoded YAML value, as \<open>yaml.v3\<close> hands it over in an \<open>any\<close>: \<open>nil\<close>, \<open>bool\<close>,
  \<open>int\<close>, \<open>string\<close>, \<open>[]any\<close> and \<open>map[string]any\<close>. \<open>JOther t x\<close> is a value \<open>x\<close> of any other
  dynamic type \<open>t\<close> (\<open>float64\<close>, timestamps, maps with keys that are not strings),
  which the type switches of the generator never match. A Go map has no order and no duplicate
  keys; it is kept as an association list, and \<open>wf_json\<close> says that keys are distinct.
\<close>

datatype json =
    JNull
  | JBool bool
  | JInt int
  | JString string
  | JOther string string
  | JArray "json list"
  | JObject "(string \<times> json) list"

fun wf_json :: "json \<Rightarrow> bool" where
  "wf_json (JObject kvs) = (distinct (map fst kvs) \<and> (\<forall>kv \<in> set kvs. wf_json (snd kv)))"
| "wf_json (JArray xs) = (\<forall>x \<in> set xs. wf_json x)"
| "wf_json _ = True"

text \<open>
  Go errors. \<open>Errorf fmt args wrapped\<close> is \<open>fmt.Errorf(fmt, args..., err)\<close> with the
  format string as written in the source, its string arguments in order, and the error
  wrapped by \<open>%w\<close> if there is one; \<open>errors.New(msg)\<close> is \<open>Errorf msg [] None\<close>.
  \<open>Joined\<close> is \<open>errors.Join\<close>; \<open>External\<close> is an error value produced by a library or
  the operating system.
\<close>

datatype error =
    Errorf string "string list" "error option"
  | Joined "error list"
  | External string

abbreviation errorsNew :: "string \<Rightarrow> error" where
  "errorsNew msg \<equiv> Errorf msg [] None"

text \<open>Every string that an error carries as a formatted argument, through all wrapping.\<close>

fun errorArgs :: "error \<Rightarrow> string list" where
  "errorArgs (Errorf f args None) = args"
| "errorArgs (Errorf f args (Some e)) = args @ errorArgs e"
| "errorArgs (Joined es) = concat (map errorArgs es)"
| "errorArgs (External s) = []"

section \<open>String functions of the Go standard library\<close>

text \<open>
  Go strings are byte strings; \<open>strings.Contains\<close> is \<^const>\<open>sublist\<close>,
  \<open>strings.HasPrefix\<close> is \<^const>\<open>prefix\<close> and \<open>strings.HasSuffix\<close> is \<^const>\<open>suffix\<close>.
\<close>

text \<open>\<open>strings.Replace(s, old, new, 1)\<close>: the first occurrence of \<open>old\<close> only.\<close>

fun stringsReplace1 :: "string \<Rightarrow> string \<Rightarrow> string \<Rightarrow> string" where
  "stringsReplace1 [] old new = (if old = [] then new else [])"
| "stringsReplace1 (c # cs) old new =
     (if prefix old (c # cs) then new @ drop (length old) (c # cs)
      else c # stringsReplace1 cs old new)"

text \<open>\<open>strings.ReplaceAll(s, old, new)\<close>: every non-overlapping occurrence, left to right.\<close>

function stringsReplaceAll :: "string \<Rightarrow> string \<Rightarrow> string \<Rightarrow> string" where
  "stringsReplaceAll [] old new = (if old = [] then new else [])"
| "stringsReplaceAll (c # cs) old new =
     (if old = [] then new @ c # stringsReplaceAll cs old new
      else if prefix old (c # cs) then new @ stringsReplaceAll (drop (length old) (c # cs)) old new
      else c # stringsReplaceAll cs old new)"
  by pat_completeness auto
termination
  by (relation "measure (\<lambda>(s, old, new). length s)") auto

text \<open>
  \<open>strings.SplitN(s, sep, 2)\<close> for a non-empty separator: the text before the first
  occurrence of \<open>sep\<close> and the text after it, or \<open>s\<close> alone when \<open>sep\<close> does not occur.
\<close>

fun stringsCut :: "string \<Rightarrow> string \<Rightarrow> (string \<times> string) option" where
  "stringsCut [] sep = (if sep = [] then Some ([], []) else None)"
| "stringsCut (c # cs) sep =
     (if prefix sep (c # cs) then Some ([], drop (length sep) (c # cs))
      else (case stringsCut cs sep of
              None \<Rightarrow> None
            | Some (before, after) \<Rightarrow> Some (c # before, after)))"

definition stringsSplitN2 :: "string \<Rightarrow> string \<Rightarrow> string list" where
  "stringsSplitN2 s sep =
     (case stringsCut s sep of None \<Rightarrow> [s] | Some (before, after) \<Rightarrow> [before, after])"

section \<open>The patch pass\<close>

text \<open>\<open>encodeURIFragment\<close>: encodes the caret in the fragment of a reference.\<close>

definition encodeURIFragment :: "string \<Rightarrow> error + string" where
  "encodeURIFragment ref =
     (if \<not> sublist ''#'' ref then Inr ref
      else
        let parts = stringsSplitN2 ref ''#'' in
        if length parts \<noteq> 2 then Inr ref
        else
          let base = parts ! 0; fragment = parts ! 1 in
          if fragment = [] then Inr ref
          else
            let encodedFragment = stringsReplaceAll fragment ''^'' ''%5E''
            in Inr (base @ ''#'' @ encodedFragment))"

text \<open>
  \<open>patchSchemaInPlaceRecursive\<close>. The Go function mutates the document in place and
  returns an error; the model returns the error or the document after the pass.
  \<open>patchFields\<close> is the \<open>range\<close> loop over the entries of a map: each iteration touches
  the entry of its own key only (\<open>delete(obj, key)\<close> drops it, \<open>obj[key] = refStr\<close>
  replaces its value, and the recursive call mutates its value in place), so an entry
  is dropped, replaced or kept where it stands. For \<open>additionalProperties\<close> the entry
  with the value \<open>true\<close> is deleted and the case falls through to the recursive call
  of the default case. \<open>patchItems\<close> is the loop over a slice.
\<close>

fun patchSchemaInPlaceRecursive :: "json \<Rightarrow> bool \<Rightarrow> error + json"
  and patchFields :: "(string \<times> json) list \<Rightarrow> bool \<Rightarrow> error + (string \<times> json) list"
  and patchItems :: "json list \<Rightarrow> error + json list"
where
  "patchSchemaInPlaceRecursive (JObject obj) isRoot =
     (case patchFields obj isRoot of Inl err \<Rightarrow> Inl err | Inr obj' \<Rightarrow> Inr (JObject obj'))"
| "patchSchemaInPlaceRecursive (JArray items) isRoot =
     (case patchItems items of Inl err \<Rightarrow> Inl err | Inr items' \<Rightarrow> Inr (JArray items'))"
| "patchSchemaInPlaceRecursive JNull isRoot = Inr JNull"
| "patchSchemaInPlaceRecursive (JBool b) isRoot = Inr (JBool b)"
| "patchSchemaInPlaceRecursive (JInt i) isRoot = Inr (JInt i)"
| "patchSchemaInPlaceRecursive (JString s) isRoot = Inr (JString s)"
| "patchSchemaInPlaceRecursive (JOther t x) isRoot = Inr (JOther t x)"
| "patchFields [] isRoot = Inr []"
| "patchFields ((key, value) # rest) isRoot =
     (if key = ''$id'' then
        (case patchFields rest isRoot of
           Inl err \<Rightarrow> Inl err
         | Inr rest' \<Rightarrow> Inr (if \<not> isRoot then rest' else (key, value) # rest'))
      else if key = ''$ref'' then
        (case value of
           JString refStr \<Rightarrow>
             (case encodeURIFragment (stringsReplace1 refStr ''.spec.yml'' ''.jsonschema.json'') of
                Inl err \<Rightarrow>
                  Inl (Errorf ''failed to encode $ref %q: %w''
                         [stringsReplace1 refStr ''.spec.yml'' ''.jsonschema.json''] (Some err))
              | Inr refStr' \<Rightarrow>
                  (case patchFields rest isRoot of
                     Inl err \<Rightarrow> Inl err
                   | Inr rest' \<Rightarrow> Inr ((key, JString refStr') # rest')))
         | _ \<Rightarrow>
             (case patchFields rest isRoot of
                Inl err \<Rightarrow> Inl err
              | Inr rest' \<Rightarrow> Inr ((key, value) # rest')))
      else if key = ''additionalProperties'' then
        (case patchSchemaInPlaceRecursive value False of
           Inl err \<Rightarrow> Inl err
         | Inr value' \<Rightarrow>
             (case patchFields rest isRoot of
                Inl err \<Rightarrow> Inl err
              | Inr rest' \<Rightarrow> Inr (if value = JBool True then rest' else (key, value') # rest')))
      else
        (case patchSchemaInPlaceRecursive value False of
           Inl err \<Rightarrow> Inl err
         | Inr value' \<Rightarrow>
             (case patchFields rest isRoot of
                Inl err \<Rightarrow> Inl err
              | Inr rest' \<Rightarrow> Inr ((key, value') # rest'))))"
| "patchItems [] = Inr []"
| "patchItems (item # rest) =
     (case patchSchemaInPlaceRecursive item False of
        Inl err \<Rightarrow> Inl err
      | Inr item' \<Rightarrow>
          (case patchItems rest of Inl err \<Rightarrow> Inl err | Inr rest' \<Rightarrow> Inr (item' # rest')))"

definition patchSchemaInPlace :: "json \<Rightarrow> error + json" where
  "patchSchemaInPlace v = patchSchemaInPlaceRecursive v True"


section \<open>More of the Go standard library\<close>

text \<open>\<open>strings.TrimPrefix\<close>, \<open>strings.Join\<close>, \<open>strings.Split\<close> on a one-byte separator,
  and \<open>strings.SplitN(s, sep, 3)\<close>.\<close>

definition stringsTrimPrefix :: "string \<Rightarrow> string \<Rightarrow> string" where
  "stringsTrimPrefix s pre = (if prefix pre s then drop (length pre) s else s)"

fun stringsJoin :: "string list \<Rightarrow> string \<Rightarrow> string" where
  "stringsJoin [] sep = []"
| "stringsJoin [x] sep = x"
| "stringsJoin (x # y # ys) sep = x @ sep @ stringsJoin (y # ys) sep"

fun splitOn :: "char \<Rightarrow> string \<Rightarrow> string list" where
  "splitOn sep [] = [[]]"
| "splitOn sep (c # cs) =
     (if c = sep then [] # splitOn sep cs
      else (case splitOn sep cs of [] \<Rightarrow> [[c]] | x # xs \<Rightarrow> (c # x) # xs))"

definition stringsSplitN3 :: "string \<Rightarrow> string \<Rightarrow> string list" where
  "stringsSplitN3 s sep =
     (case stringsCut s sep of None \<Rightarrow> [s] | Some (before, after) \<Rightarrow> before # stringsSplitN2 after sep)"

text \<open>
  \<open>strconv.ParseInt(s, 10, 64)\<close>, which is also \<open>strconv.Atoi\<close> where \<open>int\<close> has 64
  bits: an optional sign and at least one decimal digit, within the range of \<open>int64\<close>;
  \<open>None\<close> is the error.
\<close>

definition isDigit :: "char \<Rightarrow> bool" where
  "isDigit c \<longleftrightarrow> CHR ''0'' \<le> c \<and> c \<le> CHR ''9''"

definition digitsValue :: "string \<Rightarrow> nat" where
  "digitsValue ds = foldl (\<lambda>n c. 10 * n + (of_char c - 48)) 0 ds"

definition parseInt64 :: "string \<Rightarrow> int option" where
  "parseInt64 s =
     (let neg = prefix ''-'' s;
          ds = (if prefix ''+'' s \<or> prefix ''-'' s then tl s else s)
      in if ds = [] \<or> \<not> list_all isDigit ds then None
         else
           let v = (if neg then - int (digitsValue ds) else int (digitsValue ds))
           in if v < - (2 ^ 63) \<or> 2 ^ 63 - 1 < v then None else Some v)"

text \<open>\<open>%d\<close> of an integer.\<close>

fun showNat :: "nat \<Rightarrow> string" where
  "showNat n =
     (if n < 10 then [''0123456789'' ! n]
      else showNat (n div 10) @ [''0123456789'' ! (n mod 10)])"

declare showNat.simps [simp del]

definition showInt :: "int \<Rightarrow> string" where
  "showInt i = (if i < 0 then ''-'' @ showNat (nat (- i)) else showNat (nat i))"

section \<open>The semantic-version library\<close>

text \<open>
  \<open>github.com/coreos/go-semver\<close>, as the generator uses it: the \<open>Version\<close> struct,
  \<open>NewVersion\<close>, \<open>String\<close>, \<open>Compare\<close>, \<open>LessThan\<close> and \<open>Sort\<close>. The library is not
  part of the repository; this is its behaviour at version 0.3.
\<close>

record version =
  Major :: int
  Minor :: int
  Patch :: int
  PreRelease :: string
  Metadata :: string

definition splitOff :: "string \<Rightarrow> string \<Rightarrow> string \<times> string" where
  \<comment> \<open>the input that is left, and the value that was split off\<close>
  "splitOff input delim =
     (case stringsCut input delim of None \<Rightarrow> (input, []) | Some (before, after) \<Rightarrow> (before, after))"

definition identChar :: "char \<Rightarrow> bool" where
  "identChar c \<longleftrightarrow>
     isDigit c \<or> (CHR ''A'' \<le> c \<and> c \<le> CHR ''Z'') \<or> (CHR ''a'' \<le> c \<and> c \<le> CHR ''z'') \<or> c = CHR ''-''"

definition validateIdentifier :: "string \<Rightarrow> bool" where
  \<comment> \<open>empty, or matched by \<open>^[0-9A-Za-z-]+(\.[0-9A-Za-z-]+)*$\<close>\<close>
  "validateIdentifier ident \<longleftrightarrow>
     ident = [] \<or> list_all (\<lambda>part. part \<noteq> [] \<and> list_all identChar part) (splitOn CHR ''.'' ident)"

definition semverNewVersion :: "string \<Rightarrow> error + version" where
  "semverNewVersion str =
     (let (rest1, metadata) = splitOff str ''+'';
          (rest2, preRelease) = splitOff rest1 ''-'';
          dotParts = stringsSplitN3 rest2 ''.''
      in if length dotParts \<noteq> 3 then Inl (Errorf ''%s is not in dotted-tri format'' [rest2] None)
         else if \<not> validateIdentifier preRelease then
           Inl (Errorf ''failed to validate pre-release: %v'' [preRelease] None)
         else if \<not> validateIdentifier metadata then
           Inl (Errorf ''failed to validate metadata: %v'' [metadata] None)
         else
           (case parseInt64 (dotParts ! 0) of
              None \<Rightarrow> Inl (External ''strconv.ParseInt'')
            | Some major \<Rightarrow>
                (case parseInt64 (dotParts ! 1) of
                   None \<Rightarrow> Inl (External ''strconv.ParseInt'')
                 | Some minor \<Rightarrow>
                     (case parseInt64 (dotParts ! 2) of
                        None \<Rightarrow> Inl (External ''strconv.ParseInt'')
                      | Some patch \<Rightarrow>
                          Inr \<lparr> Major = major, Minor = minor, Patch = patch,
                                PreRelease = preRelease, Metadata = metadata \<rparr>))))"

definition versionString :: "version \<Rightarrow> string" where
  "versionString v =
     showInt (Major v) @ ''.'' @ showInt (Minor v) @ ''.'' @ showInt (Patch v)
     @ (if PreRelease v \<noteq> [] then ''-'' @ PreRelease v else [])
     @ (if Metadata v \<noteq> [] then ''+'' @ Metadata v else [])"

text \<open>
  \<open>recursivePreReleaseCompare\<close> on the dot-separated parts of two pre-release strings,
  and \<open>Compare\<close>: major, minor and patch in this order (\<open>recursiveCompare\<close> on the
  three-element slices), then the pre-releases.
\<close>

fun recursivePreReleaseCompare :: "string list \<Rightarrow> string list \<Rightarrow> int" where
  "recursivePreReleaseCompare [] versionB = (if versionB \<noteq> [] then - 1 else 0)"
| "recursivePreReleaseCompare (a # versionA) [] = 1"
| "recursivePreReleaseCompare (a # versionA) (b # versionB) =
     (case (parseInt64 a, parseInt64 b) of
        (Some aI, None) \<Rightarrow> - 1
      | (None, Some bI) \<Rightarrow> 1
      | (Some aI, Some bI) \<Rightarrow>
          (if aI > bI then 1 else if aI < bI then - 1
           else if a > b then 1 else if a < b then - 1
           else recursivePreReleaseCompare versionA versionB)
      | (None, None) \<Rightarrow>
          (if a > b then 1 else if a < b then - 1
           else recursivePreReleaseCompare versionA versionB))"

definition preReleaseCompare :: "version \<Rightarrow> version \<Rightarrow> int" where
  "preReleaseCompare versionA versionB =
     (let a = PreRelease versionA; b = PreRelease versionB
      in if length a = 0 \<and> length b > 0 then 1
         else if length b = 0 \<and> length a > 0 then - 1
         else recursivePreReleaseCompare (splitOn CHR ''.'' a) (splitOn CHR ''.'' b))"

definition Compare :: "version \<Rightarrow> version \<Rightarrow> int" where
  "Compare v versionB =
     (if Major v > Major versionB then 1 else if Major v < Major versionB then - 1
      else if Minor v > Minor versionB then 1 else if Minor v < Minor versionB then - 1
      else if Patch v > Patch versionB then 1 else if Patch v < Patch versionB then - 1
      else preReleaseCompare v versionB)"

definition LessThan :: "version \<Rightarrow> version \<Rightarrow> bool" where
  "LessThan v versionB \<longleftrightarrow> Compare v versionB < 0"

text \<open>
  \<open>semver.Sort\<close> is \<open>sort.Sort\<close> with \<open>LessThan\<close>: it returns the elements in an order in
  which no element is less than one before it. Insertion stands for it; which of two
  elements that compare equal comes first is not fixed by Go, and is covered by the order
  in which the elements arrive.
\<close>

fun insertBy :: "('a \<Rightarrow> 'a \<Rightarrow> bool) \<Rightarrow> 'a \<Rightarrow> 'a list \<Rightarrow> 'a list" where
  "insertBy lt x [] = [x]"
| "insertBy lt x (y # ys) = (if lt y x then y # insertBy lt x ys else x # y # ys)"

definition sortBy :: "('a \<Rightarrow> 'a \<Rightarrow> bool) \<Rightarrow> 'a list \<Rightarrow> 'a list" where
  "sortBy lt xs = foldr (insertBy lt) xs []"

section \<open>Git references\<close>

text \<open>
  A hash reference of \<open>go-git\<close>: its full name and the hash it points to.
  \<open>refShort\<close> is \<open>ReferenceName.Short\<close> for names without white space: the name
  without the longest of the prefixes \<open>refs/\<close>, \<open>refs/tags/\<close>, \<open>refs/heads/\<close> and
  \<open>refs/remotes/\<close> that leaves a non-empty rest.
\<close>

record reference =
  refName :: string
  refHash :: string

definition refShort :: "string \<Rightarrow> string" where
  "refShort s =
     foldl (\<lambda>res pre. if prefix pre s \<and> length pre < length s then drop (length pre) s else res)
       s [''refs/'', ''refs/tags/'', ''refs/heads/'', ''refs/remotes/'']"

text \<open>\<open>tagToSemver\<close>: \<open>None\<close> is the nil pointer.\<close>

definition tagToSemver :: "reference \<Rightarrow> version option" where
  "tagToSemver ref =
     (let tag = refShort (refName ref)
      in if \<not> prefix ''v'' tag then None
         else
           (case semverNewVersion (stringsTrimPrefix tag ''v'') of
              Inl err \<Rightarrow> None
            | Inr ver \<Rightarrow> Some ver))"

section \<open>Schemas, paths and files\<close>

text \<open>
  The fields of \<open>jsonschema.Schema\<close> that the generator sets; a map from names to
  schemas is an association list, a pointer that may be nil an option.
\<close>

datatype schema = Schema
  (sSchema: string) (sID: string) (sTitle: string) (sDescription: string) (sType: string)
  (sRequired: "string list") (sProperties: "(string \<times> schema) list")
  (sEnum: "json list") (sConst: "json option")
  (sDefs: "(string \<times> schema) list") (sAllOf: "schema list")
  (sIf: "schema option") (sThen: "schema option") (sRef: string)

text \<open>
  A path is kept as the list of its elements after \<open>filepath.Clean\<close>, a rooted path
  starting with the element \<open>/\<close>. \<open>cleanOnto\<close> goes through the elements of a string
  that is joined to a clean path: empty elements and \<open>.\<close> are skipped, \<open>..\<close> drops the
  element before it where there is one.
\<close>

type_synonym path = "string list"

fun cleanOnto :: "path \<Rightarrow> string list \<Rightarrow> path" where
  "cleanOnto p [] = p"
| "cleanOnto p (e # es) =
     (if e = [] \<or> e = ''.'' then cleanOnto p es
      else if e = ''..'' then
        (if p \<noteq> [] \<and> last p \<noteq> ''..'' \<and> last p \<noteq> ''/'' then cleanOnto (butlast p) es
         else if p \<noteq> [] \<and> last p = ''/'' then cleanOnto p es
         else cleanOnto (p @ [e]) es)
      else cleanOnto (p @ [e]) es)"

definition toPath :: "string \<Rightarrow> path" where
  \<comment> \<open>\<open>filepath.Clean(s)\<close>\<close>
  "toPath s = cleanOnto (if prefix ''/'' s then [''/''] else []) (splitOn CHR ''/'' s)"

definition filepathJoin :: "path \<Rightarrow> string \<Rightarrow> path" where
  \<comment> \<open>\<open>filepath.Join(p, s)\<close> for a path \<open>p\<close> that is not the empty string\<close>
  "filepathJoin p s = cleanOnto p (splitOn CHR ''/'' s)"

definition filepathDir :: "path \<Rightarrow> path" where
  "filepathDir p = (if p = [''/''] then p else butlast p)"

definition filepathBase :: "string \<Rightarrow> string" where
  "filepathBase s =
     (if s = [] then ''.''
      else (case filter (\<lambda>e. e \<noteq> []) (splitOn CHR ''/'' s) of [] \<Rightarrow> ''/'' | e # es \<Rightarrow> last (e # es)))"

text \<open>
  The files of the output tree, by path, and what the process has printed to its
  standard error. The calls of \<open>os\<close> that can fail; whether a call fails is decided by
  the environment, and a call that fails leaves the files as they were.
\<close>

record world =
  files :: "path \<Rightarrow> string option"
  stderr :: "string list"

datatype ioOp = RemoveAll path | MkdirAll path | WriteFile path

definition osRemoveAll :: "path \<Rightarrow> world \<Rightarrow> world" where
  "osRemoveAll dir w = w\<lparr>files := (\<lambda>p. if prefix dir p then None else files w p)\<rparr>"

definition osWriteFile :: "path \<Rightarrow> string \<Rightarrow> world \<Rightarrow> world" where
  "osWriteFile name content w = w\<lparr>files := (files w)(name \<mapsto> content)\<rparr>"

section \<open>Configuration and patching of a whole document\<close>

text \<open>
  The flags of the generator (\<open>outDir\<close>, \<open>dialect\<close>, \<open>baseURI\<close>, \<open>gitRef\<close>) and the
  library calls whose results the generator only passes on. \<open>urlParse b\<close> is
  \<open>url.Parse(b)\<close>: an error, or the parsed URL \<open>u\<close>, given as the function that sends
  path elements \<open>es\<close> to \<open>u.String()\<close> after \<open>u.Path = path.Join(u.Path, es...)\<close>.
  \<open>jsonEncode\<close> and \<open>marshalSchema\<close> are the two JSON encoders, \<open>ioError\<close> says which
  calls of \<open>os\<close> fail.
\<close>

record env =
  outDir :: string
  dialect :: string
  baseURI :: string
  gitRef :: string
  urlParse :: "string \<Rightarrow> error + (string list \<Rightarrow> string)"
  jsonEncode :: "json \<Rightarrow> error + string"
  marshalSchema :: "schema \<Rightarrow> error + string"
  ioError :: "ioOp \<Rightarrow> error option"

definition schemaID :: "'a env_scheme \<Rightarrow> string \<Rightarrow> string \<Rightarrow> error + string" where
  "schemaID E version relativePath =
     (case urlParse E (baseURI E) of
        Inl err \<Rightarrow> Inl (Errorf ''failed to parse base-uri: %w'' [] (Some err))
      | Inr u \<Rightarrow> Inr (u [version, relativePath]))"

text \<open>\<open>patchSchema\<close>: \<open>spec[k] = v\<close> on a Go map is \<^const>\<open>AList.update\<close>.\<close>

definition patchSchema ::
  "'a env_scheme \<Rightarrow> string \<Rightarrow> string \<Rightarrow> (string \<times> json) list \<Rightarrow> error + json" where
  "patchSchema E version relativePath spec =
     (let spec1 = AList.update ''$schema'' (JString (dialect E)) spec in
      case schemaID E version relativePath of
        Inl err \<Rightarrow> Inl (Errorf ''failed to make schema id: %w'' [] (Some err))
      | Inr sid \<Rightarrow> patchSchemaInPlace (JObject (AList.update ''$id'' (JString sid) spec1)))"

text \<open>
  A configuration to run the generator on concrete documents: the default flags; a URL
  library that parses every base and joins path elements with slashes; encoders that
  never fail and whose output is left open (the empty text); calls of \<open>os\<close> that
  never fail.
\<close>

definition exampleEnv :: env where
  "exampleEnv =
     \<lparr> outDir = ''.'',
       dialect = ''https://json-schema.org/draft/2020-12/schema'',
       baseURI = ''https://schemas.elastic.dev/package-spec'',
       gitRef = [],
       urlParse = (\<lambda>b. Inr (\<lambda>es. b @ concat (map (\<lambda>e. ''/'' @ e) es))),
       jsonEncode = (\<lambda>v. Inr []),
       marshalSchema = (\<lambda>s. Inr []),
       ioError = (\<lambda>op. None) \<rparr>"

section \<open>Manifest synthesis\<close>

definition emptySchema :: schema where
  "emptySchema = Schema [] [] [] [] [] [] [] [] None [] [] None None []"

text \<open>
  One turn of the loop of \<open>combinedManifestSchema\<close> over the sorted type names: a
  branch is appended to \<open>AllOf\<close> and a definition is set in \<open>Defs\<close>. A missing key of a
  Go map reads as the empty string.
\<close>

definition addManifestType :: "(string \<times> string) list \<Rightarrow> string \<Rightarrow> schema \<Rightarrow> schema" where
  "addManifestType manifestTypes manifestType s =
     (let definitionName = manifestType @ ''-manifest'';
          branch = Schema [] [] [] [] [] []
                     [] [] None [] []
                     (Some (Schema [] [] [] [] [] []
                              [(''type'', Schema [] [] [] [] [] [] [] [] (Some (JString manifestType))
                                            [] [] None None [])]
                              [] None [] [] None None []))
                     (Some (Schema [] [] [] [] [] [] [] [] None [] [] None None
                              (''#/$defs/'' @ definitionName)))
                     [];
          def = Schema [] [] [] [] [] [] [] [] None [] [] None None
                  (''./'' @ (case map_of manifestTypes manifestType of None \<Rightarrow> [] | Some p \<Rightarrow> p))
      in case s of
           Schema sch sid title descr typ req props enum const defs allOf ifS thenS ref \<Rightarrow>
             Schema sch sid title descr typ req props enum const
               (AList.update definitionName def defs) (allOf @ [branch]) ifS thenS ref)"

text \<open>
  \<open>combinedManifestSchema\<close>, up to the schema that is handed to \<open>json.MarshalIndent\<close>,
  and as a whole. \<open>maps.DeleteFunc\<close> keeps the types whose path is a suffix of some
  file (\<open>filepath.ToSlash\<close> changes nothing where the separator is the slash);
  \<open>slices.Sorted(maps.Keys(m))\<close> is the sorted list of the keys. The composite literal
  \<open>[]interface{}{x}\<close> is a slice with the one element \<open>x\<close>.
\<close>

definition manifestSchema :: "'a env_scheme \<Rightarrow> string list \<Rightarrow> string \<Rightarrow> error + schema" where
  "manifestSchema E fileNames version =
     (let manifestTypes =
            filter (\<lambda>(typ, path). \<not> \<not> list_ex (\<lambda>s. suffix path s) fileNames)
              [(''content'', ''content/manifest.jsonschema.json''),
               (''input'', ''input/manifest.jsonschema.json''),
               (''integration'', ''integration/manifest.jsonschema.json'')]
      in if length manifestTypes = 0 then Inl (errorsNew ''no manifest types found'')
         else
           (case schemaID E version ''manifest.jsonschema.json'' of
              Inl err \<Rightarrow> Inl err
            | Inr sid \<Rightarrow>
                Inr (fold (addManifestType manifestTypes) (sort (map fst manifestTypes))
                       (Schema ''https://json-schema.org/draft/2020-12/schema'' sid
                          ''Package Manifest'' ''Schema for package manifests.'' ''object''
                          [''type'']
                          [(''type'',
                            Schema [] [] [] [] ''string'' [] []
                              [JArray (map JString (sort (map fst manifestTypes)))]
                              None [] [] None None [])]
                          [] None [] [] None None []))))"

definition combinedManifestSchema :: "'a env_scheme \<Rightarrow> string list \<Rightarrow> string \<Rightarrow> error + string" where
  "combinedManifestSchema E fileNames version =
     (case manifestSchema E fileNames version of
        Inl err \<Rightarrow> Inl err
      | Inr s \<Rightarrow> marshalSchema E s)"

section \<open>Conversion and writing of one document\<close>

text \<open>The \<open>%T\<close> of a decoded value.\<close>

definition goTypeName :: "json \<Rightarrow> string" where
  "goTypeName v =
     (case v of
        JNull \<Rightarrow> ''<nil>''
      | JBool b \<Rightarrow> ''bool''
      | JInt i \<Rightarrow> ''int''
      | JString s \<Rightarrow> ''string''
      | JOther t x \<Rightarrow> t
      | JArray xs \<Rightarrow> ''[]interface {}''
      | JObject obj \<Rightarrow> ''map[string]interface {}'')"

text \<open>
  \<open>convertSpecYAMLToJSONSchema\<close>. The reader is given by what \<open>yaml.Decode\<close> into a
  \<open>map[string]any\<close> returns on it; the result is the error or the text written.
\<close>

definition convertSpecYAMLToJSONSchema ::
  "'a env_scheme \<Rightarrow> string \<Rightarrow> error + (string \<times> json) list \<Rightarrow> string \<Rightarrow> error + string" where
  "convertSpecYAMLToJSONSchema E path r version =
     (case r of
        Inl err \<Rightarrow> Inl (Errorf ''failed to decode YAML: %w'' [] (Some err))
      | Inr m \<Rightarrow>
          (case map_of m ''spec'' of
             None \<Rightarrow> Inl (errorsNew ''spec key not found in YAML'')
           | Some v \<Rightarrow>
               (case v of
                  JObject spec \<Rightarrow>
                    (case patchSchema E version path spec of
                       Inl err \<Rightarrow> Inl (Errorf ''failed to patch schema: %w'' [] (Some err))
                     | Inr spec' \<Rightarrow> jsonEncode E spec')
                | _ \<Rightarrow> Inl (Errorf ''spec is not an object, got %T'' [goTypeName v] None))))"

definition writeSchema ::
  "'a env_scheme \<Rightarrow> string \<Rightarrow> error + (string \<times> json) list \<Rightarrow> path \<Rightarrow> string \<Rightarrow> world
   \<Rightarrow> error option \<times> world" where
  "writeSchema E relPath r destDir version w =
     (case convertSpecYAMLToJSONSchema E relPath r version of
        Inl err \<Rightarrow>
          (Some (Errorf ''failed converting spec.yml file to JSON schema for %q: %w'' [relPath]
                   (Some err)), w)
      | Inr buf \<Rightarrow>
          (let destFile = filepathJoin destDir relPath
           in case ioError E (MkdirAll (filepathDir destFile)) of
                Some err \<Rightarrow> (Some err, w)
              | None \<Rightarrow>
                  (case ioError E (WriteFile destFile) of
                     Some err \<Rightarrow> (Some err, w)
                   | None \<Rightarrow> (None, osWriteFile destFile buf w))))"

section \<open>The repository and the version listing\<close>

text \<open>
  What \<open>go-git\<close> answers. A walk of the work tree is the list of the entries that
  \<open>util.Walk\<close> visits, each with its path, the error of the walk if there is one, the
  error of opening it, what \<open>yaml.Decode\<close> returns on its content, and the error of
  closing it. A repository gives the results of \<open>NewGitRepository\<close>, \<open>ResolveRevision\<close>,
  \<open>References\<close>, \<open>Tags\<close> and their iterators, \<open>Checkout\<close> and \<open>Worktree\<close>.
\<close>

record walkEntry =
  wePath :: string
  weWalkErr :: "error option"
  weOpenErr :: "error option"
  weDoc :: "error + (string \<times> json) list"
  weCloseErr :: "error option"

record worktree =
  wtExists :: "string \<Rightarrow> bool"
  wtWalk :: "string \<Rightarrow> walkEntry list"

record gitRepo =
  openErr :: "error option"
  resolveRevision :: "string \<Rightarrow> error + string"
  references :: "error + reference list"
  referencesIterErr :: "error option"
  repoTags :: "error + reference list"
  tagsIterErr :: "error option"
  checkoutErr :: "reference \<Rightarrow> error option"
  worktreeOf :: "reference \<Rightarrow> error + worktree"

definition ResolveReference :: "gitRepo \<Rightarrow> string \<Rightarrow> error + reference" where
  "ResolveReference g ref =
     (case resolveRevision g ref of
        Inl err \<Rightarrow> Inl (Errorf ''failed to resolve revision %q: %w'' [ref] (Some err))
      | Inr hash \<Rightarrow>
          (case references g of
             Inl err \<Rightarrow> Inl (Errorf ''failed to get references: %w'' [] (Some err))
           | Inr refs \<Rightarrow>
               (case referencesIterErr g of
                  Some err \<Rightarrow> Inl (Errorf ''failed to iterate references: %w'' [] (Some err))
                | None \<Rightarrow>
                    (case filter (\<lambda>r. refHash r = hash) refs of
                       [] \<Rightarrow> Inr \<lparr> refName = ''refs/heads/'' @ ref, refHash = hash \<rparr>
                     | r # rs \<Rightarrow> Inr (last (r # rs))))))"

text \<open>
  \<open>GetReleaseTags\<close>. The map from version pointers to references is the list of its
  entries (every pointer is new, so no entry replaces another); \<open>mapKeysOrder\<close> is the
  order in which Go hands out the keys of the map.
\<close>

definition GetReleaseTags ::
  "((version \<times> reference) list \<Rightarrow> (version \<times> reference) list) \<Rightarrow> gitRepo \<Rightarrow> error + reference list" where
  "GetReleaseTags mapKeysOrder g =
     (case repoTags g of
        Inl err \<Rightarrow> Inl (Errorf ''failed to get tags: %w'' [] (Some err))
      | Inr tags \<Rightarrow>
          (let versionToRef =
                 concat (map (\<lambda>reference.
                    case tagToSemver reference of
                      None \<Rightarrow> []
                    | Some ver \<Rightarrow> if PreRelease ver \<noteq> [] then [] else [(ver, reference)]) tags)
           in case tagsIterErr g of
                Some err \<Rightarrow> Inl (Errorf ''failed to iterate tags: %w'' [] (Some err))
              | None \<Rightarrow>
                  Inr (map snd (sortBy (\<lambda>a b. LessThan (fst a) (fst b))
                                  (mapKeysOrder versionToRef)))))"

text \<open>
  The test of the loop in \<open>GetReleaseTags\<close>: a tag is entered into the map unless
  \<open>ver == nil || ver.PreRelease != ""\<close>.
\<close>

definition keptTag :: "reference \<Rightarrow> bool" where
  "keptTag reference =
     (case tagToSemver reference of None \<Rightarrow> False | Some ver \<Rightarrow> \<not> PreRelease ver \<noteq> [])"

text \<open>
  \<open>plumbing.NewReferenceFromStrings(name, target)\<close> on the \<open>String()\<close> of a hash
  reference, which is its hash, a space and its name: \<open>NewHash\<close> decodes the hexadecimal
  digits in front, two at a time, up to twenty bytes.
\<close>

definition referenceString :: "reference \<Rightarrow> string" where
  "referenceString r = refHash r @ '' '' @ refName r"

definition isHex :: "char \<Rightarrow> bool" where
  "isHex c \<longleftrightarrow>
     isDigit c \<or> (CHR ''a'' \<le> c \<and> c \<le> CHR ''f'') \<or> (CHR ''A'' \<le> c \<and> c \<le> CHR ''F'')"

fun hexPrefix :: "string \<Rightarrow> string" where
  "hexPrefix (a # b # cs) = (if isHex a \<and> isHex b then a # b # hexPrefix cs else [])"
| "hexPrefix cs = []"

definition NewHash :: "string \<Rightarrow> string" where
  "NewHash s = (let h = take 40 (hexPrefix s) in h @ replicate (40 - length h) CHR ''0'')"

definition NewReferenceFromStrings :: "string \<Rightarrow> string \<Rightarrow> reference" where
  "NewReferenceFromStrings name target =
     (if prefix ''ref: '' target then \<lparr> refName = name, refHash = replicate 40 CHR ''0'' \<rparr>
      else \<lparr> refName = name, refHash = NewHash target \<rparr>)"

text \<open>The references that \<open>run\<close> works on, and the version of one as \<open>writeSchemas\<close>
  names it.\<close>

definition runGitRefs ::
  "'a env_scheme \<Rightarrow> ((version \<times> reference) list \<Rightarrow> (version \<times> reference) list) \<Rightarrow> gitRepo
   \<Rightarrow> error + reference list" where
  "runGitRefs E mapKeysOrder git =
     (if gitRef E \<noteq> [] then
        (case ResolveReference git (gitRef E) of
           Inl err \<Rightarrow> Inl err
         | Inr hash \<Rightarrow> Inr [NewReferenceFromStrings (gitRef E) (referenceString hash)])
      else GetReleaseTags mapKeysOrder git)"

definition versionOf :: "reference \<Rightarrow> string" where
  "versionOf ref = (case tagToSemver ref of Some v \<Rightarrow> versionString v | None \<Rightarrow> refName ref)"

section \<open>Writing the schemas of one version\<close>

definition getSpecPath :: "worktree \<Rightarrow> error + string" where
  "getSpecPath fs =
     (if wtExists fs ''spec'' then Inr ''spec''
      else if wtExists fs ''versions/1'' then Inr ''versions/1''
      else Inl (errorsNew ''no spec found''))"

text \<open>
  The function that \<open>writeSchemas\<close> passes to \<open>util.Walk\<close>, on one entry; its state is
  the slice \<open>written\<close> and the files. \<open>walkAll\<close> is the walk: it stops at the first
  error.
\<close>

definition relPathOf :: "string \<Rightarrow> string \<Rightarrow> string" where
  "relPathOf repoPath path =
     stringsReplace1 (stringsTrimPrefix path (repoPath @ ''/'')) ''.spec.yml'' ''.jsonschema.json''"

definition walkFn ::
  "'a env_scheme \<Rightarrow> string \<Rightarrow> path \<Rightarrow> string \<Rightarrow> walkEntry \<Rightarrow> string list \<times> world
   \<Rightarrow> error option \<times> string list \<times> world" where
  "walkFn E repoPath dir ver e st =
     (case weWalkErr e of
        Some walkErr \<Rightarrow> (Some walkErr, st)
      | None \<Rightarrow>
          if \<not> suffix ''.spec.yml'' (filepathBase (wePath e)) then (None, st)
          else
            (case weOpenErr e of
               Some err \<Rightarrow> (Some err, st)
             | None \<Rightarrow>
                 (let relPath = relPathOf repoPath (wePath e);
                      written = fst st @ [relPath];
                      (err, w) = writeSchema E relPath (weDoc e) dir ver (snd st)
                  in case weCloseErr e of
                       None \<Rightarrow> (err, written, w)
                     | Some closeErr \<Rightarrow>
                         (Some (Joined ((case err of None \<Rightarrow> [] | Some x \<Rightarrow> [x]) @ [closeErr])),
                          written, w))))"

fun walkAll ::
  "(walkEntry \<Rightarrow> string list \<times> world \<Rightarrow> error option \<times> string list \<times> world)
   \<Rightarrow> walkEntry list \<Rightarrow> string list \<times> world \<Rightarrow> error option \<times> string list \<times> world" where
  "walkAll f [] st = (None, st)"
| "walkAll f (e # es) st =
     (case f e st of
        (Some err, st') \<Rightarrow> (Some err, st')
      | (None, st') \<Rightarrow> walkAll f es st')"

definition writeSchemas :: "'a env_scheme \<Rightarrow> gitRepo \<Rightarrow> reference \<Rightarrow> world \<Rightarrow> error option \<times> world" where
  "writeSchemas E git ref w =
     (let ver = versionOf ref;
          dir = filepathJoin (filepathJoin (toPath (outDir E)) ver) ''jsonschema''
      in case checkoutErr git ref of
           Some err \<Rightarrow> (Some err, w)
         | None \<Rightarrow>
             (case worktreeOf git ref of
                Inl err \<Rightarrow> (Some err, w)
              | Inr wt \<Rightarrow>
                  (case getSpecPath wt of
                     Inl err \<Rightarrow> (Some err, w)
                   | Inr repoPath \<Rightarrow>
                       (case ioError E (RemoveAll dir) of
                          Some err \<Rightarrow> (Some err, w)
                        | None \<Rightarrow>
                            (case walkAll (walkFn E repoPath dir ver) (wtWalk wt repoPath)
                                    ([], osRemoveAll dir w) of
                               (Some err, written, w') \<Rightarrow> (Some err, w')
                             | (None, written, w') \<Rightarrow>
                                 if \<not> ''manifest.jsonschema.json'' \<in> set written then
                                   (case combinedManifestSchema E written ver of
                                      Inl err \<Rightarrow> (Some err, w')
                                    | Inr b \<Rightarrow>
                                        (case ioError E
                                                (WriteFile (filepathJoin dir ''manifest.jsonschema.json'')) of
                                           Some err \<Rightarrow> (Some err, w')
                                         | None \<Rightarrow>
                                             (None,
                                              osWriteFile (filepathJoin dir ''manifest.jsonschema.json'')
                                                b w')))
                                 else (None, w'))))))"

fun writeAll :: "'a env_scheme \<Rightarrow> gitRepo \<Rightarrow> reference list \<Rightarrow> world \<Rightarrow> error option \<times> world" where
  "writeAll E git [] w = (None, w)"
| "writeAll E git (ref # refs) w =
     (case writeSchemas E git ref w of
        (Some err, w') \<Rightarrow> (Some err, w')
      | (None, w') \<Rightarrow> writeAll E git refs w')"

definition run ::
  "'a env_scheme \<Rightarrow> ((version \<times> reference) list \<Rightarrow> (version \<times> reference) list) \<Rightarrow> gitRepo \<Rightarrow> world
   \<Rightarrow> error option \<times> world" where
  "run E mapKeysOrder git w =
     (case openErr git of
        Some err \<Rightarrow> (Some err, w)
      | None \<Rightarrow>
          (case runGitRefs E mapKeysOrder git of
             Inl err \<Rightarrow> (Some err, w)
           | Inr gitRefs \<Rightarrow> writeAll E git gitRefs w))"

section \<open>The bundler\<close>

text \<open>
  The second program, \<open>.generate/bundle\<close>. Its flags (\<open>inDir\<close>, \<open>outDir\<close>), and what the
  system answers: \<open>exec.LookPath\<close>, the entries that \<open>filepath.Walk\<close> visits with the
  error of each, the run of a command (its standard output, its standard error, and the
  error of \<open>cmd.Run\<close> if it fails), and which calls of \<open>os\<close> fail.
\<close>

record bundleEnv =
  bundleInDir :: string
  bundleOutDir :: string
  lookPath :: "string \<Rightarrow> error + string"
  walkDir :: "string \<Rightarrow> (string \<times> error option) list"
  execRun :: "string \<Rightarrow> string list \<Rightarrow> string \<times> string \<times> error option"
  bundleIoError :: "ioOp \<Rightarrow> error option"

definition jsonschemaExec :: "bundleEnv \<Rightarrow> string list \<Rightarrow> world \<Rightarrow> (error + string) \<times> world" where
  "jsonschemaExec B args w =
     (case execRun B ''jsonschema'' args of
        (outBuf, errBuf, Some err) \<Rightarrow>
          (Inl (Errorf ''failed running jsonschema %s: %w'' [stringsJoin args '' ''] (Some err)),
           w\<lparr>stderr := stderr w @ [errBuf @ [CHR 0x0A]]\<rparr>)
      | (outBuf, errBuf, None) \<Rightarrow> (Inr outBuf, w))"

definition trimFilePrefix :: "string \<Rightarrow> string \<Rightarrow> string" where
  "trimFilePrefix path pre = stringsTrimPrefix path (pre @ ''/'')"

definition bundleSchema ::
  "bundleEnv \<Rightarrow> string \<Rightarrow> string \<Rightarrow> string \<Rightarrow> world \<Rightarrow> error option \<times> world" where
  "bundleSchema B schemaPath inDir bundlesDir w =
     (case jsonschemaExec B [''bundle'', schemaPath, ''--resolve'', inDir, ''--without-id''] w of
        (Inl err, w') \<Rightarrow> (Some err, w')
      | (Inr out, w') \<Rightarrow>
          (let outFile = filepathJoin (toPath bundlesDir) (trimFilePrefix schemaPath inDir)
           in case bundleIoError B (MkdirAll (filepathDir outFile)) of
                Some err \<Rightarrow> (Some err, w')
              | None \<Rightarrow>
                  (case bundleIoError B (WriteFile outFile) of
                     Some err \<Rightarrow> (Some err, w')
                   | None \<Rightarrow> (None, osWriteFile outFile out w'))))"

fun findFiles :: "(string \<times> error option) list \<Rightarrow> (string \<Rightarrow> bool) \<Rightarrow> error + string list" where
  "findFiles [] match = Inr []"
| "findFiles ((path, Some err) # rest) match = Inl err"
| "findFiles ((path, None) # rest) match =
     (case findFiles rest match of
        Inl err \<Rightarrow> Inl err
      | Inr out \<Rightarrow> Inr (if \<not> match path then out else path # out))"

text \<open>The loop of \<open>run\<close> over the schemas, and \<open>run\<close>.\<close>

fun bundleAll :: "bundleEnv \<Rightarrow> string list \<Rightarrow> world \<Rightarrow> error option \<times> world" where
  "bundleAll B [] w = (None, w)"
| "bundleAll B (schema # schemas) w =
     (case bundleSchema B schema (bundleInDir B) (bundleOutDir B) w of
        (Some err, w') \<Rightarrow> (Some (Errorf ''bundling %q failed: %w'' [schema] (Some err)), w')
      | (None, w') \<Rightarrow> bundleAll B schemas w')"

definition bundleRun :: "bundleEnv \<Rightarrow> world \<Rightarrow> error option \<times> world" where
  "bundleRun B w =
     (if bundleInDir B = [] then (Some (errorsNew ''no input dir specified''), w)
      else if bundleOutDir B = [] then (Some (errorsNew ''no output dir specified''), w)
      else
        (case lookPath B ''jsonschema'' of
           Inl err \<Rightarrow> (Some (errorsNew ''jsonschema tool not found in $PATH''), w)
         | Inr p \<Rightarrow>
             (case findFiles (walkDir B (bundleInDir B)) (\<lambda>path. suffix ''.jsonschema.json'' path) of
                Inl err \<Rightarrow> (Some (Errorf ''failed finding files: %w'' [] (Some err)), w)
              | Inr schemas \<Rightarrow> bundleAll B schemas w)))"

text \<open>
  Every text that an error carries: its format strings, the arguments formatted into
  them, and the messages of the errors from outside.
\<close>

fun errorTexts :: "error \<Rightarrow> string list" where
  "errorTexts (Errorf f args None) = f # args"
| "errorTexts (Errorf f args (Some e)) = f # args @ errorTexts e"
| "errorTexts (Joined es) = concat (map errorTexts es)"
| "errorTexts (External s) = [s]"

text \<open>A bundling tool that fails on every schema, with a diagnostic.\<close>

definition failingBundler :: bundleEnv where
  "failingBundler =
     \<lparr> bundleInDir = ''3.4.1/jsonschema'',
       bundleOutDir = ''3.4.1/bundles'',
       lookPath = (\<lambda>name. Inr (''/usr/bin/'' @ name)),
       walkDir = (\<lambda>dir. [(dir, None), (dir @ ''/manifest.jsonschema.json'', None)]),
       execRun = (\<lambda>name args. ([], ''error: could not resolve the reference'', Some (External ''exit status 1''))),
       bundleIoError = (\<lambda>op. None) \<rparr>"

section \<open>What the specification says about the version listing\<close>

text \<open>
  The parts of a version text, read off the text itself. \<open>coreOf\<close>: what stands before
  the first \<open>+\<close> or \<open>-\<close>; \<open>tailOf\<close>: the rest, from that character on;
  \<open>preReleaseOf\<close>: when the rest starts with \<open>-\<close>, what follows it up to the next
  \<open>+\<close>; \<open>metadataOf\<close>: what follows the first \<open>+\<close>.
\<close>

definition coreOf :: "string \<Rightarrow> string" where
  "coreOf s = takeWhile (\<lambda>c. c \<noteq> CHR ''+'' \<and> c \<noteq> CHR ''-'') s"

definition tailOf :: "string \<Rightarrow> string" where
  "tailOf s = dropWhile (\<lambda>c. c \<noteq> CHR ''+'' \<and> c \<noteq> CHR ''-'') s"

definition preReleaseOf :: "string \<Rightarrow> string" where
  "preReleaseOf s =
     (case tailOf s of
        [] \<Rightarrow> []
      | c # r \<Rightarrow> if c = CHR ''-'' then takeWhile (\<lambda>c. c \<noteq> CHR ''+'') r else [])"

definition metadataOf :: "string \<Rightarrow> string" where
  "metadataOf s = (if CHR ''+'' \<in> set s then tl (dropWhile (\<lambda>c. c \<noteq> CHR ''+'') s) else [])"

text \<open>
  A semantic version as Semantic Versioning 2.0.0 defines it: three numbers without
  leading zeros, separated by dots; then, optionally, \<open>-\<close> and a pre-release of
  dot-separated identifiers of letters, digits and hyphens, none of them empty and the
  numeric ones without leading zeros; then, optionally, \<open>+\<close> and build metadata of
  dot-separated identifiers, none of them empty. \<open>claimedReleaseName\<close> is a tag name
  that the claim keeps: \<open>v\<close>, then a semantic version with no pre-release.
\<close>

definition numericIdentifier :: "string \<Rightarrow> bool" where
  "numericIdentifier d \<longleftrightarrow> d \<noteq> [] \<and> list_all isDigit d \<and> (length d = 1 \<or> hd d \<noteq> CHR ''0'')"

definition preReleaseIdentifiers :: "string \<Rightarrow> bool" where
  "preReleaseIdentifiers p =
     list_all (\<lambda>q. q \<noteq> [] \<and> list_all identChar q
                  \<and> (if list_all isDigit q then numericIdentifier q else True))
       (splitOn CHR ''.'' p)"

definition buildIdentifiers :: "string \<Rightarrow> bool" where
  "buildIdentifiers m = list_all (\<lambda>q. q \<noteq> [] \<and> list_all identChar q) (splitOn CHR ''.'' m)"

definition semanticVersion :: "string \<Rightarrow> bool" where
  "semanticVersion s \<longleftrightarrow>
     length (splitOn CHR ''.'' (coreOf s)) = 3
     \<and> list_all numericIdentifier (splitOn CHR ''.'' (coreOf s))
     \<and> (if prefix ''-'' (tailOf s) then preReleaseIdentifiers (preReleaseOf s) else True)
     \<and> (if CHR ''+'' \<in> set s then buildIdentifiers (metadataOf s) else True)"

definition claimedReleaseName :: "string \<Rightarrow> bool" where
  "claimedReleaseName t \<longleftrightarrow> prefix ''v'' t \<and> semanticVersion (tl t) \<and> \<not> prefix ''-'' (tailOf (tl t))"

text \<open>
  The tag names that the program keeps, in the same terms: \<open>v\<close>; then three decimal
  numbers separated by dots, each of at least one digit, with or without leading zeros,
  and below \<open>2^63\<close>; then nothing, or a \<open>-\<close> with nothing between it and the next
  \<open>+\<close> or the end; then nothing, or \<open>+\<close> and build metadata that is empty or made of
  dot-separated identifiers, none of them empty. \<open>nameNumbers\<close> are the three numbers
  of such a name.
\<close>

definition decimalNumber :: "string \<Rightarrow> bool" where
  "decimalNumber d \<longleftrightarrow> d \<noteq> [] \<and> list_all isDigit d \<and> int (digitsValue d) < 2 ^ 63"

definition dotIdentifiers :: "string \<Rightarrow> bool" where
  "dotIdentifiers m \<longleftrightarrow>
     m = [] \<or> list_all (\<lambda>q. q \<noteq> [] \<and> list_all identChar q) (splitOn CHR ''.'' m)"

definition releaseName :: "string \<Rightarrow> bool" where
  "releaseName t \<longleftrightarrow>
     prefix ''v'' t
     \<and> length (splitOn CHR ''.'' (coreOf (tl t))) = 3
     \<and> list_all decimalNumber (splitOn CHR ''.'' (coreOf (tl t)))
     \<and> preReleaseOf (tl t) = []
     \<and> dotIdentifiers (metadataOf (tl t))"

definition nameNumbers :: "string \<Rightarrow> nat list" where
  "nameNumbers t = map digitsValue (splitOn CHR ''.'' (coreOf (tl t)))"

definition tagNumbers :: "reference \<Rightarrow> nat list" where
  "tagNumbers r = nameNumbers (refShort (refName r))"

text \<open>
  A repository to run the generator on: four tags, and a work tree with the
  specifications of two package types under \<open>spec\<close>.
\<close>

definition exampleTree :: worktree where
  "exampleTree =
     \<lparr> wtExists = (\<lambda>p. p = ''spec''),
       wtWalk = (\<lambda>root.
         [\<lparr> wePath = ''spec'', weWalkErr = None, weOpenErr = None,
             weDoc = Inl (External ''is a directory''), weCloseErr = None \<rparr>,
          \<lparr> wePath = ''spec/input/manifest.spec.yml'', weWalkErr = None, weOpenErr = None,
             weDoc = Inr [(''spec'', JObject [(''type'', JString ''object'')])], weCloseErr = None \<rparr>,
          \<lparr> wePath = ''spec/integration/changelog.yml'', weWalkErr = None, weOpenErr = None,
             weDoc = Inr [], weCloseErr = None \<rparr>,
          \<lparr> wePath = ''spec/integration/manifest.spec.yml'', weWalkErr = None, weOpenErr = None,
             weDoc = Inr [(''spec'', JObject [(''additionalProperties'', JBool True),
                                              (''$ref'', JString ''../input/manifest.spec.yml#/x^y'')])],
             weCloseErr = None \<rparr>]) \<rparr>"

definition exampleRepo :: gitRepo where
  "exampleRepo =
     \<lparr> openErr = None,
       resolveRevision = (\<lambda>r. Inr (replicate 40 CHR ''a'')),
       references = Inr [],
       referencesIterErr = None,
       repoTags =
         Inr [\<lparr> refName = ''refs/tags/v1.2.0'', refHash = replicate 40 CHR ''1'' \<rparr>,
              \<lparr> refName = ''refs/tags/v1.10.0'', refHash = replicate 40 CHR ''2'' \<rparr>,
              \<lparr> refName = ''refs/tags/v2.0.0-beta1'', refHash = replicate 40 CHR ''3'' \<rparr>,
              \<lparr> refName = ''refs/tags/v1.3.0'', refHash = replicate 40 CHR ''4'' \<rparr>],
       tagsIterErr = None,
       checkoutErr = (\<lambda>r. None),
       worktreeOf = (\<lambda>r. Inr exampleTree) \<rparr>"

text \<open>The three numbers of a version, in the lexicographic order of triples.\<close>

definition vkey :: "version \<Rightarrow> int \<times> int \<times> int" where
  "vkey v = (Major v, Minor v, Patch v)"

definition tagKey :: "reference \<Rightarrow> int \<times> int \<times> int" where
  "tagKey r = (case tagToSemver r of None \<Rightarrow> (0, 0, 0) | Some v \<Rightarrow> vkey v)"

text \<open>The entries of the map that \<open>GetReleaseTags\<close> builds from the tags.\<close>

definition versionToRefOf :: "reference list \<Rightarrow> (version \<times> reference) list" where
  "versionToRefOf tags =
     concat (map (\<lambda>reference.
        case tagToSemver reference of
          None \<Rightarrow> []
        | Some ver \<Rightarrow> if PreRelease ver \<noteq> [] then [] else [(ver, reference)]) tags)"

section \<open>What the specification says about the output directory\<close>

text \<open>
  The directory of a version; a relative path without an element \<open>..\<close>; the entries
  of a walk that \<open>writeSchemas\<close> converts.
\<close>

definition versionDir :: "'a env_scheme \<Rightarrow> reference \<Rightarrow> path" where
  "versionDir E ref = filepathJoin (filepathJoin (toPath (outDir E)) (versionOf ref)) ''jsonschema''"

definition noParent :: "string \<Rightarrow> bool" where
  "noParent s \<longleftrightarrow> ''..'' \<notin> set (splitOn CHR ''/'' s)"

definition isSpecEntry :: "walkEntry \<Rightarrow> bool" where
  "isSpecEntry e \<longleftrightarrow> suffix ''.spec.yml'' (filepathBase (wePath e))"

text \<open>
  \<open>entryWrote\<close>: the file at \<open>p\<close> is the conversion of a specification of the
  work tree.
\<close>

definition entryWrote ::
  "'a env_scheme \<Rightarrow> string \<Rightarrow> path \<Rightarrow> string \<Rightarrow> walkEntry list \<Rightarrow> path \<Rightarrow> string \<Rightarrow> bool" where
  "entryWrote E repoPath dir ver entries p content \<longleftrightarrow>
     (\<exists>e \<in> set entries. isSpecEntry e
        \<and> p = filepathJoin dir (relPathOf repoPath (wePath e))
        \<and> convertSpecYAMLToJSONSchema E (relPathOf repoPath (wePath e)) (weDoc e) ver = Inr content)"

text \<open>
  What the directory of a version has to hold after a run, said of the work tree alone.
  \<open>writtenPaths\<close>: the relative paths of the schemas of the specifications of the
  walk, in the order of the walk. \<open>convertedAt\<close>: at the path \<open>p\<close>, the conversion of
  the last specification of the walk whose schema goes to \<open>p\<close>. \<open>expectedFiles\<close>:
  the content of every path: the manifest synthesized from \<open>writtenPaths\<close> at
  \<open>manifest.jsonschema.json\<close> when no specification has that relative path, the
  conversion of a specification elsewhere, and no file at any other path.
\<close>

definition targetOf :: "string \<Rightarrow> path \<Rightarrow> walkEntry \<Rightarrow> path" where
  "targetOf repoPath dir e = filepathJoin dir (relPathOf repoPath (wePath e))"

definition writtenPaths :: "string \<Rightarrow> walkEntry list \<Rightarrow> string list" where
  "writtenPaths repoPath entries =
     map (\<lambda>e. relPathOf repoPath (wePath e)) (filter isSpecEntry entries)"

definition convertedAt ::
  "'a env_scheme \<Rightarrow> string \<Rightarrow> path \<Rightarrow> string \<Rightarrow> walkEntry list \<Rightarrow> path \<Rightarrow> string option" where
  "convertedAt E repoPath dir ver entries p =
     (case filter (\<lambda>e. isSpecEntry e \<and> targetOf repoPath dir e = p) entries of
        [] \<Rightarrow> None
      | e # es \<Rightarrow>
          (case convertSpecYAMLToJSONSchema E (relPathOf repoPath (wePath (last (e # es))))
                  (weDoc (last (e # es))) ver of
             Inl err \<Rightarrow> None
           | Inr content \<Rightarrow> Some content))"

definition expectedFiles ::
  "'a env_scheme \<Rightarrow> string \<Rightarrow> path \<Rightarrow> string \<Rightarrow> walkEntry list \<Rightarrow> path \<Rightarrow> string option" where
  "expectedFiles E repoPath dir ver entries p =
     (if p = filepathJoin dir ''manifest.jsonschema.json''
         \<and> ''manifest.jsonschema.json'' \<notin> set (writtenPaths repoPath entries)
      then (case combinedManifestSchema E (writtenPaths repoPath entries) ver of
              Inl err \<Rightarrow> None
            | Inr content \<Rightarrow> Some content)
      else convertedAt E repoPath dir ver entries p)"

section \<open>What the specification says about the pass\<close>

text \<open>
  The rewriting of a \<open>$ref\<close> as the specification words it: the \<open>.spec.yml\<close> suffix of
  the part before the first \<open>#\<close> becomes \<open>.jsonschema.json\<close>, and from the first
  \<open>#\<close> on every caret becomes \<open>%5E\<close> and nothing else changes.
\<close>

definition caretsEncoded :: "string \<Rightarrow> string" where
  "caretsEncoded f = concat (map (\<lambda>c. if c = CHR ''^'' then ''%5E'' else [c]) f)"

definition suffixRewritten :: "string \<Rightarrow> string" where
  "suffixRewritten b =
     (if suffix ''.spec.yml'' b then take (length b - length ''.spec.yml'') b @ ''.jsonschema.json''
      else b)"

definition claimedRef :: "string \<Rightarrow> string" where
  "claimedRef s =
     suffixRewritten (takeWhile (\<lambda>c. c \<noteq> CHR ''#'') s)
     @ caretsEncoded (dropWhile (\<lambda>c. c \<noteq> CHR ''#'') s)"

text \<open>
  The rewriting as the program does it, in the same words: the leftmost occurrence of
  \<open>.spec.yml\<close>, wherever it is, becomes \<open>.jsonschema.json\<close>; then, from the first
  \<open>#\<close> on, every caret becomes \<open>%5E\<close>.
\<close>

definition firstIndex :: "string \<Rightarrow> string \<Rightarrow> nat option" where
  "firstIndex s old = find (\<lambda>i. prefix old (drop i s)) [0..<Suc (length s)]"

definition firstReplaced :: "string \<Rightarrow> string \<Rightarrow> string \<Rightarrow> string" where
  "firstReplaced s old new =
     (case firstIndex s old of
        None \<Rightarrow> s
      | Some i \<Rightarrow> take i s @ new @ drop (i + length old) s)"

definition fragmentEncoded :: "string \<Rightarrow> string" where
  "fragmentEncoded t =
     takeWhile (\<lambda>c. c \<noteq> CHR ''#'') t @ caretsEncoded (dropWhile (\<lambda>c. c \<noteq> CHR ''#'') t)"

definition amendedRef :: "string \<Rightarrow> string" where
  "amendedRef s = fragmentEncoded (firstReplaced s ''.spec.yml'' ''.jsonschema.json'')"

text \<open>
  The calls of the pass. \<open>calls v\<close> lists, as paths from \<open>v\<close>, the values on which
  \<open>patchSchemaInPlaceRecursive\<close> is called while it runs on \<open>v\<close> (\<open>v\<close> itself first):
  the values of all keys but \<open>$id\<close> and \<open>$ref\<close>, and all items of arrays.
  \<open>nodes v\<close> lists every value of the document.
\<close>

datatype step = Key string | Index nat

fun calls :: "json \<Rightarrow> step list list"
  and callsFields :: "(string \<times> json) list \<Rightarrow> step list list"
  and callsItems :: "nat \<Rightarrow> json list \<Rightarrow> step list list"
where
  "calls (JObject obj) = [] # callsFields obj"
| "calls (JArray items) = [] # callsItems 0 items"
| "calls JNull = [[]]"
| "calls (JBool b) = [[]]"
| "calls (JInt i) = [[]]"
| "calls (JString s) = [[]]"
| "calls (JOther t x) = [[]]"
| "callsFields [] = []"
| "callsFields ((key, value) # rest) =
     (if key = ''$id'' \<or> key = ''$ref'' then [] else map ((#) (Key key)) (calls value))
     @ callsFields rest"
| "callsItems i [] = []"
| "callsItems i (item # rest) = map ((#) (Index i)) (calls item) @ callsItems (Suc i) rest"

fun nodes :: "json \<Rightarrow> step list list"
  and nodesFields :: "(string \<times> json) list \<Rightarrow> step list list"
  and nodesItems :: "nat \<Rightarrow> json list \<Rightarrow> step list list"
where
  "nodes (JObject obj) = [] # nodesFields obj"
| "nodes (JArray items) = [] # nodesItems 0 items"
| "nodes JNull = [[]]"
| "nodes (JBool b) = [[]]"
| "nodes (JInt i) = [[]]"
| "nodes (JString s) = [[]]"
| "nodes (JOther t x) = [[]]"
| "nodesFields [] = []"
| "nodesFields ((key, value) # rest) = map ((#) (Key key)) (nodes value) @ nodesFields rest"
| "nodesItems i [] = []"
| "nodesItems i (item # rest) = map ((#) (Index i)) (nodes item) @ nodesItems (Suc i) rest"

text \<open>A path that goes through no value of a \<open>$id\<close> or \<open>$ref\<close> key.\<close>

definition plainPath :: "step list \<Rightarrow> bool" where
  "plainPath p \<longleftrightarrow> Key ''$id'' \<notin> set p \<and> Key ''$ref'' \<notin> set p"

text \<open>
  \<open>noNestedId\<close>: no object other than the root has a key \<open>$id\<close>, anywhere in the
  document. \<open>noReachedId\<close>: the same for the objects that the pass calls itself on.
\<close>

fun noNestedId :: "bool \<Rightarrow> json \<Rightarrow> bool" where
  "noNestedId isRoot (JObject obj) =
     ((isRoot \<or> ''$id'' \<notin> fst ` set obj) \<and> (\<forall>kv \<in> set obj. noNestedId False (snd kv)))"
| "noNestedId isRoot (JArray items) = (\<forall>x \<in> set items. noNestedId False x)"
| "noNestedId isRoot v = True"

fun noReachedId :: "bool \<Rightarrow> json \<Rightarrow> bool" where
  "noReachedId isRoot (JObject obj) =
     ((isRoot \<or> ''$id'' \<notin> fst ` set obj)
      \<and> (\<forall>kv \<in> set obj. fst kv \<noteq> ''$id'' \<and> fst kv \<noteq> ''$ref'' \<longrightarrow> noReachedId False (snd kv)))"
| "noReachedId isRoot (JArray items) = (\<forall>x \<in> set items. noReachedId False x)"
| "noReachedId isRoot v = True"

text \<open>
  \<open>refOnce\<close>: a \<open>$ref\<close> string contains \<open>.spec.yml\<close> at most once, that is, not again
  after its first occurrence. \<open>refsOnce\<close>: this holds for every \<open>$ref\<close> string that
  the pass rewrites.
\<close>

definition refOnce :: "json \<Rightarrow> bool" where
  "refOnce v =
     (case v of
        JString refStr \<Rightarrow>
          (case stringsCut refStr ''.spec.yml'' of
             None \<Rightarrow> True
           | Some (before, after) \<Rightarrow> \<not> sublist ''.spec.yml'' after)
      | _ \<Rightarrow> True)"

fun refsOnce :: "json \<Rightarrow> bool" where
  "refsOnce (JObject obj) =
     (\<forall>kv \<in> set obj.
        if fst kv = ''$id'' then True
        else if fst kv = ''$ref'' then refOnce (snd kv)
        else refsOnce (snd kv))"
| "refsOnce (JArray items) = (\<forall>x \<in> set items. refsOnce x)"
| "refsOnce v = True"

section \<open>The pass as a function\<close>

text \<open>
  What the pass computes, written without the error plumbing. These functions are not
  part of the program; \<open>patch_eq\<close> below shows that the pass returns them.
\<close>

definition encodedRef :: "string \<Rightarrow> string" where
  "encodedRef ref =
     (case stringsCut ref ''#'' of
        None \<Rightarrow> ref
      | Some (base, fragment) \<Rightarrow> base @ ''#'' @ stringsReplaceAll fragment ''^'' ''%5E'')"

definition patchedRef :: "json \<Rightarrow> json" where
  "patchedRef v =
     (case v of
        JString refStr \<Rightarrow>
          JString (encodedRef (stringsReplace1 refStr ''.spec.yml'' ''.jsonschema.json''))
      | _ \<Rightarrow> v)"

fun patched :: "bool \<Rightarrow> json \<Rightarrow> json" where
  "patched isRoot (JObject obj) =
     JObject (concat (map (\<lambda>kv.
        if fst kv = ''$id'' then (if isRoot then [kv] else [])
        else if fst kv = ''$ref'' then [(fst kv, patchedRef (snd kv))]
        else if fst kv = ''additionalProperties'' \<and> snd kv = JBool True then []
        else [(fst kv, patched False (snd kv))]) obj))"
| "patched isRoot (JArray items) = JArray (map (patched False) items)"
| "patched isRoot v = v"

definition patchedEntry :: "bool \<Rightarrow> string \<times> json \<Rightarrow> (string \<times> json) list" where
  "patchedEntry isRoot kv =
     (if fst kv = ''$id'' then (if isRoot then [kv] else [])
      else if fst kv = ''$ref'' then [(fst kv, patchedRef (snd kv))]
      else if fst kv = ''additionalProperties'' \<and> snd kv = JBool True then []
      else [(fst kv, patched False (snd kv))])"

section \<open>The pass with a record of its calls\<close>

text \<open>
  \<open>subAt v p\<close> is the value that the path \<open>p\<close> leads to from \<open>v\<close>: a key selects the
  entry of an object, an index the item of an array.
\<close>

fun subAt :: "json \<Rightarrow> step list \<Rightarrow> json option" where
  "subAt v [] = Some v"
| "subAt (JObject obj) (Key k # p) = (case map_of obj k of None \<Rightarrow> None | Some x \<Rightarrow> subAt x p)"
| "subAt (JArray items) (Index i # p) = (if i < length items then subAt (items ! i) p else None)"
| "subAt v (s # p) = None"

text \<open>
  \<open>patchTraced\<close> is \<open>patchSchemaInPlaceRecursive\<close> with one addition: each call records
  the path of the value it is called on, and the function returns, beside its result,
  the paths recorded by the call and by all calls made within it, in the order of the
  calls. Nothing else differs: \<open>traced_eq\<close> below shows that the result is that of
  \<open>patchSchemaInPlaceRecursive\<close>. \<open>path\<close> is the path of the value from the document
  that the pass was started on, \<open>i\<close> the index of the first item of a slice.
\<close>

fun patchTraced :: "json \<Rightarrow> bool \<Rightarrow> step list \<Rightarrow> (error + json) \<times> step list list"
  and patchFieldsTraced ::
    "(string \<times> json) list \<Rightarrow> bool \<Rightarrow> step list \<Rightarrow> (error + (string \<times> json) list) \<times> step list list"
  and patchItemsTraced :: "json list \<Rightarrow> nat \<Rightarrow> step list \<Rightarrow> (error + json list) \<times> step list list"
where
  "patchTraced (JObject obj) isRoot path =
     (case patchFieldsTraced obj isRoot path of
        (Inl err, log) \<Rightarrow> (Inl err, path # log)
      | (Inr obj', log) \<Rightarrow> (Inr (JObject obj'), path # log))"
| "patchTraced (JArray items) isRoot path =
     (case patchItemsTraced items 0 path of
        (Inl err, log) \<Rightarrow> (Inl err, path # log)
      | (Inr items', log) \<Rightarrow> (Inr (JArray items'), path # log))"
| "patchTraced JNull isRoot path = (Inr JNull, [path])"
| "patchTraced (JBool b) isRoot path = (Inr (JBool b), [path])"
| "patchTraced (JInt i) isRoot path = (Inr (JInt i), [path])"
| "patchTraced (JString s) isRoot path = (Inr (JString s), [path])"
| "patchTraced (JOther t x) isRoot path = (Inr (JOther t x), [path])"
| "patchFieldsTraced [] isRoot path = (Inr [], [])"
| "patchFieldsTraced ((key, value) # rest) isRoot path =
     (if key = ''$id'' then
        (case patchFieldsTraced rest isRoot path of
           (Inl err, log) \<Rightarrow> (Inl err, log)
         | (Inr rest', log) \<Rightarrow> (Inr (if \<not> isRoot then rest' else (key, value) # rest'), log))
      else if key = ''$ref'' then
        (case value of
           JString refStr \<Rightarrow>
             (case encodeURIFragment (stringsReplace1 refStr ''.spec.yml'' ''.jsonschema.json'') of
                Inl err \<Rightarrow>
                  (Inl (Errorf ''failed to encode $ref %q: %w''
                          [stringsReplace1 refStr ''.spec.yml'' ''.jsonschema.json''] (Some err)), [])
              | Inr refStr' \<Rightarrow>
                  (case patchFieldsTraced rest isRoot path of
                     (Inl err, log) \<Rightarrow> (Inl err, log)
                   | (Inr rest', log) \<Rightarrow> (Inr ((key, JString refStr') # rest'), log)))
         | _ \<Rightarrow>
             (case patchFieldsTraced rest isRoot path of
                (Inl err, log) \<Rightarrow> (Inl err, log)
              | (Inr rest', log) \<Rightarrow> (Inr ((key, value) # rest'), log)))
      else if key = ''additionalProperties'' then
        (case patchTraced value False (path @ [Key key]) of
           (Inl err, log) \<Rightarrow> (Inl err, log)
         | (Inr value', log) \<Rightarrow>
             (case patchFieldsTraced rest isRoot path of
                (Inl err, log') \<Rightarrow> (Inl err, log @ log')
              | (Inr rest', log') \<Rightarrow>
                  (Inr (if value = JBool True then rest' else (key, value') # rest'), log @ log')))
      else
        (case patchTraced value False (path @ [Key key]) of
           (Inl err, log) \<Rightarrow> (Inl err, log)
         | (Inr value', log) \<Rightarrow>
             (case patchFieldsTraced rest isRoot path of
                (Inl err, log') \<Rightarrow> (Inl err, log @ log')
              | (Inr rest', log') \<Rightarrow> (Inr ((key, value') # rest'), log @ log'))))"
| "patchItemsTraced [] i path = (Inr [], [])"
| "patchItemsTraced (item # rest) i path =
     (case patchTraced item False (path @ [Index i]) of
        (Inl err, log) \<Rightarrow> (Inl err, log)
      | (Inr item', log) \<Rightarrow>
          (case patchItemsTraced rest (Suc i) path of
             (Inl err, log') \<Rightarrow> (Inl err, log @ log')
           | (Inr rest', log') \<Rightarrow> (Inr (item' # rest'), log @ log')))"

section \<open>Facts about the string functions\<close>

lemma stringsCut_None_iff: "stringsCut s sep = None \<longleftrightarrow> \<not> sublist sep s"
  by (induction s) (auto simp: sublist_Cons_right split: option.splits)

lemma stringsCut_Some: "stringsCut s sep = Some (b, a) \<Longrightarrow> s = b @ sep @ a"
  by (induction s arbitrary: b) (auto simp: prefix_def split: if_splits option.splits)

lemma encodeURIFragment_eq: "encodeURIFragment ref = Inr (encodedRef ref)"
proof (cases "stringsCut ref ''#''")
  case None
  then have "\<not> sublist ''#'' ref" by (simp add: stringsCut_None_iff)
  with None show ?thesis
    by (simp add: encodeURIFragment_def encodedRef_def)
next
  case (Some p)
  obtain b f where p: "p = (b, f)" by (cases p)
  have ref: "ref = b @ ''#'' @ f" using stringsCut_Some Some p by blast
  have "sublist ''#'' ref" using Some stringsCut_None_iff[of ref "''#''"] by simp
  then show ?thesis using Some p ref
    by (simp add: encodeURIFragment_def encodedRef_def stringsSplitN2_def Let_def)
qed

section \<open>The pass never fails\<close>

lemma patched_object: "patched isRoot (JObject obj) = JObject (concat (map (patchedEntry isRoot) obj))"
  by (simp add: patchedEntry_def[abs_def])

lemma patchFields_Cons_eq:
  assumes rest: "patchFields rest r = Inr rest'"
    and v: "key \<noteq> ''$id'' \<Longrightarrow> key \<noteq> ''$ref'' \<Longrightarrow>
            patchSchemaInPlaceRecursive value False = Inr (patched False value)"
  shows "patchFields ((key, value) # rest) r = Inr (patchedEntry r (key, value) @ rest')"
proof (cases "key = ''$id''")
  case True
  then show ?thesis using rest by (simp add: patchedEntry_def)
next
  case nid: False
  show ?thesis
  proof (cases "key = ''$ref''")
    case True
    then show ?thesis using rest
      by (cases "value") (simp_all add: patchedEntry_def patchedRef_def encodeURIFragment_eq)
  next
    case nref: False
    then show ?thesis using nid rest v
      by (cases "key = ''additionalProperties''") (simp_all add: patchedEntry_def)
  qed
qed

lemma patch_eq:
  "patchSchemaInPlaceRecursive v r = Inr (patched r v)"
  "patchFields kvs r = Inr (concat (map (patchedEntry r) kvs))"
  "patchItems xs = Inr (map (patched False) xs)"
proof (induction v r and kvs r and xs rule: patchSchemaInPlaceRecursive_patchFields_patchItems.induct)
  case (1 obj isRoot)
  then show ?case by (simp add: patched_object del: patched.simps)
next
  case (9 key "value" rest isRoot)
  have v: "patchSchemaInPlaceRecursive value False = Inr (patched False value)"
    if "key \<noteq> ''$id''" "key \<noteq> ''$ref''"
    using that 9(9,11) by (cases "key = ''additionalProperties''") simp_all
  have rest: "patchFields rest isRoot = Inr (concat (map (patchedEntry isRoot) rest))"
  proof (cases "key = ''$id''")
    case True
    then show ?thesis using 9(1) by simp
  next
    case nid: False
    show ?thesis
    proof (cases "key = ''$ref''")
      case True
      then show ?thesis using nid 9(2-8) by (cases "value") (simp_all add: encodeURIFragment_eq)
    next
      case nref: False
      show ?thesis
      proof (cases "key = ''additionalProperties''")
        case True
        then show ?thesis using nid nref v 9(10) by simp
      next
        case False
        then show ?thesis using nid nref v 9(12) by simp
      qed
    qed
  qed
  show ?case using patchFields_Cons_eq[OF rest v] by simp
qed simp_all

lemma stringsCut_bare_hash: "\<not> sublist ''#'' b \<Longrightarrow> stringsCut (b @ ''#'') ''#'' = Some (b, [])"
  by (induction b) (auto simp: sublist_Cons_right)

text \<open>
  C9. \<open>encodeURIFragment\<close> returns a string and never an error, for every input; a
  reference that ends in its only \<open>#\<close> (an empty fragment) is returned unchanged; so the
  loop over the entries of an object never takes the branch that wraps a failed encoding
  of a \<open>$ref\<close>, and the patch pass returns a document, never an error, for every decoded
  value, at the root and below it.
\<close>

theorem C9_patch_pass_never_fails:
  "(\<exists>s. encodeURIFragment ref = Inr s)
   \<and> (\<not> sublist ''#'' b \<longrightarrow> encodeURIFragment (b @ ''#'') = Inr (b @ ''#''))
   \<and> (\<forall>a e. patchFields kvs isRoot \<noteq> Inl (Errorf ''failed to encode $ref %q: %w'' a e))
   \<and> (\<exists>v'. patchSchemaInPlaceRecursive v isRoot = Inr v')
   \<and> (\<exists>v'. patchSchemaInPlace v = Inr v')"
proof -
  have "encodeURIFragment (b @ ''#'') = Inr (b @ ''#'')" if "\<not> sublist ''#'' b"
    using stringsCut_bare_hash[OF that] by (simp add: encodeURIFragment_eq encodedRef_def)
  then show ?thesis
    by (simp add: encodeURIFragment_eq patch_eq patchSchemaInPlace_def)
qed

theorem C9_patch_pass_never_fails_witness:
  "\<not> sublist ''#'' ''foo.spec.yml''
   \<and> encodeURIFragment ''foo.spec.yml#'' = Inr ''foo.spec.yml#''
   \<and> (\<exists>v'. patchSchemaInPlace (JObject [(''$ref'', JString ''foo.spec.yml#'')]) = Inr v')"
proof -
  have h: "\<not> sublist ''#'' ''foo.spec.yml''" by (simp add: sublist_Cons_right)
  from C9_patch_pass_never_fails
         [where b = "''foo.spec.yml''" and v = "JObject [(''$ref'', JString ''foo.spec.yml#'')]"] h
  show ?thesis by simp
qed

section \<open>Rewriting of references\<close>

lemma find_map_list: "find P (map f xs) = map_option f (find (\<lambda>x. P (f x)) xs)"
  by (induction xs) auto

lemma find_upt_Suc:
  "find P [0..<Suc (Suc n)] = (if P 0 then Some 0 else map_option Suc (find (\<lambda>i. P (Suc i)) [0..<Suc n]))"
proof -
  have e: "[0..<Suc (Suc n)] = 0 # map Suc [0..<Suc n]"
    by (metis map_Suc_upt upt_conv_Cons zero_less_Suc)
  show ?thesis unfolding e by (simp add: find_map_list del: upt_Suc)
qed

lemma firstIndex_Cons:
  "firstIndex (c # cs) old = (if prefix old (c # cs) then Some 0 else map_option Suc (firstIndex cs old))"
  unfolding firstIndex_def by (simp only: length_Cons find_upt_Suc) simp

lemma stringsReplace1_firstReplaced: "stringsReplace1 s old new = firstReplaced s old new"
proof (induction s)
  case Nil
  then show ?case by (simp add: firstReplaced_def firstIndex_def)
next
  case (Cons c cs)
  then show ?case
    by (auto simp: firstReplaced_def firstIndex_Cons split: option.splits)
qed

lemma stringsReplaceAll_caret: "stringsReplaceAll s ''^'' ''%5E'' = caretsEncoded s"
  by (induction s) (auto simp: caretsEncoded_def)

lemma stringsCut_char:
  "stringsCut s [c] =
     (if c \<in> set s then Some (takeWhile (\<lambda>x. x \<noteq> c) s, tl (dropWhile (\<lambda>x. x \<noteq> c) s)) else None)"
  by (induction s) auto

lemma dropWhile_hd: "c \<in> set s \<Longrightarrow> dropWhile (\<lambda>x. x \<noteq> c) s = c # tl (dropWhile (\<lambda>x. x \<noteq> c) s)"
  by (induction s) auto

lemma encodedRef_fragmentEncoded: "encodedRef t = fragmentEncoded t"
proof (cases "CHR ''#'' \<in> set t")
  case True
  from dropWhile_hd[OF True] obtain f where f: "dropWhile (\<lambda>x. x \<noteq> CHR ''#'') t = CHR ''#'' # f"
    by blast
  then show ?thesis using True
    by (simp add: encodedRef_def fragmentEncoded_def stringsCut_char stringsReplaceAll_caret caretsEncoded_def)
next
  case False
  then have tw: "takeWhile (\<lambda>x. x \<noteq> CHR ''#'') t = t"
    and dw: "dropWhile (\<lambda>x. x \<noteq> CHR ''#'') t = []"
    by (auto simp: takeWhile_eq_all_conv dropWhile_eq_Nil_conv)
  show ?thesis using False
    by (simp add: encodedRef_def fragmentEncoded_def stringsCut_char tw dw caretsEncoded_def)
qed

lemma patchedRef_amended: "patchedRef (JString s) = JString (amendedRef s)"
  by (simp add: patchedRef_def amendedRef_def encodedRef_fragmentEncoded stringsReplace1_firstReplaced)

lemma fst_patchedEntry: "kv' \<in> set (patchedEntry r kv) \<Longrightarrow> fst kv' = fst kv"
  by (auto simp: patchedEntry_def split: if_splits)

lemma map_of_patched_other:
  "k \<noteq> fst kv \<Longrightarrow> map_of (patchedEntry r kv @ rest) k = map_of rest k"
  by (auto simp: patchedEntry_def)

lemma map_of_patched_ref:
  "map_of (concat (map (patchedEntry r) obj)) ''$ref'' = map_option patchedRef (map_of obj ''$ref'')"
proof (induction obj)
  case Nil
  then show ?case by simp
next
  case (Cons kv obj)
  show ?case
  proof (cases "fst kv = ''$ref''")
    case True
    then show ?thesis by (cases kv) (simp add: patchedEntry_def)
  next
    case False
    then have "map_of (patchedEntry r kv @ concat (map (patchedEntry r) obj)) ''$ref''
               = map_of (concat (map (patchedEntry r) obj)) ''$ref''"
      by (intro map_of_patched_other) simp
    then show ?thesis using False Cons by (cases kv) simp
  qed
qed

lemma patched_JBool_True: "patched r v = JBool True \<longleftrightarrow> v = JBool True"
  by (cases v) (simp_all)

lemma patchedEntry_no_true:
  "(''additionalProperties'', JBool True) \<notin> set (patchedEntry r kv)"
proof (cases "fst kv = ''additionalProperties''")
  case True
  then show ?thesis
    using patched_JBool_True[of False "snd kv"]
    by (cases "snd kv = JBool True") (auto simp: patchedEntry_def)
next
  case False
  then show ?thesis using fst_patchedEntry[of "(''additionalProperties'', JBool True)" r kv] by auto
qed

lemma no_additionalProperties_true:
  "(''additionalProperties'', JBool True) \<notin> set (concat (map (patchedEntry r) obj))"
  using patchedEntry_no_true by auto


section \<open>What the pass reaches\<close>

lemma patchedEntry_keys_nonroot: "''$id'' \<notin> fst ` set (patchedEntry False kv)"
  by (cases "fst kv = ''$id''") (auto simp: patchedEntry_def)

lemma patchedEntry_reached:
  assumes "kv' \<in> set (patchedEntry r kv)" "fst kv' \<noteq> ''$id''" "fst kv' \<noteq> ''$ref''"
  shows "fst kv \<noteq> ''$id'' \<and> fst kv \<noteq> ''$ref''
         \<and> \<not> (fst kv = ''additionalProperties'' \<and> snd kv = JBool True)
         \<and> snd kv' = patched False (snd kv)"
proof -
  have k: "fst kv' = fst kv" using assms(1) by (rule fst_patchedEntry)
  then have "fst kv \<noteq> ''$id''" "fst kv \<noteq> ''$ref''" using assms by auto
  then show ?thesis using assms(1) by (auto simp: patchedEntry_def split: if_splits)
qed

lemma noReachedId_patched: "noReachedId r (patched r v)"
proof (induction r v rule: patched.induct)
  case (1 isRoot obj)
  have a: "isRoot \<or> ''$id'' \<notin> fst ` set (concat (map (patchedEntry isRoot) obj))"
    using patchedEntry_keys_nonroot by (cases isRoot) auto
  have b: "noReachedId False (snd kv')"
    if "kv' \<in> set (concat (map (patchedEntry isRoot) obj))" "fst kv' \<noteq> ''$id''" "fst kv' \<noteq> ''$ref''"
    for kv'
  proof -
    from that(1) obtain kv where kv: "kv \<in> set obj" "kv' \<in> set (patchedEntry isRoot kv)" by auto
    from patchedEntry_reached[OF kv(2) that(2,3)] 1[OF kv(1)] show ?thesis by simp
  qed
  show ?case unfolding patched_object using a b by simp
qed simp_all

lemma plainPath_simps:
  "plainPath []"
  "plainPath (Key k # q) \<longleftrightarrow> k \<noteq> ''$id'' \<and> k \<noteq> ''$ref'' \<and> plainPath q"
  "plainPath (Index i # q) \<longleftrightarrow> plainPath q"
  by (auto simp: plainPath_def)

lemma calls_nodes_mem:
  "p \<in> set (calls v) \<longleftrightarrow> p \<in> set (nodes v) \<and> plainPath p"
  "p \<in> set (callsFields obj) \<longleftrightarrow> p \<in> set (nodesFields obj) \<and> plainPath p"
  "p \<in> set (callsItems i xs) \<longleftrightarrow> p \<in> set (nodesItems i xs) \<and> plainPath p"
proof (induction v and obj and i xs arbitrary: p and p and p rule: calls_callsFields_callsItems.induct)
  case (1 obj)
  then show ?case by (cases "p = []") (simp_all add: plainPath_simps)
next
  case (2 items)
  then show ?case by (cases "p = []") (simp_all add: plainPath_simps)
next
  case (9 key "value" rest)
  have rest: "p \<in> set (callsFields rest) \<longleftrightarrow> p \<in> set (nodesFields rest) \<and> plainPath p"
    using 9(2) .
  show ?case
  proof (cases "key = ''$id'' \<or> key = ''$ref''")
    case True
    then have "\<not> plainPath (Key key # q)" for q by (auto simp: plainPath_simps)
    then show ?thesis using True rest by auto
  next
    case False
    then have "plainPath (Key key # q) \<longleftrightarrow> plainPath q" for q by (simp add: plainPath_simps)
    moreover have "q \<in> set (calls value) \<longleftrightarrow> q \<in> set (nodes value) \<and> plainPath q" for q
      using 9(1) False by simp
    ultimately show ?thesis using False rest by auto
  qed
next
  case (11 i item rest)
  then show ?case by (auto simp: plainPath_simps)
qed (auto simp: plainPath_simps)

lemma callsFields_head: "p \<in> set (callsFields obj) \<Longrightarrow> \<exists>k q. p = Key k # q \<and> k \<in> set (map fst obj)"
proof (induction obj)
  case Nil
  then show ?case by simp
next
  case (Cons kv obj)
  obtain k v where kv: "kv = (k, v)" by (cases kv)
  from Cons.prems kv have "p \<in> set (map ((#) (Key k)) (calls v)) \<or> p \<in> set (callsFields obj)"
    by (auto split: if_splits)
  then show ?case
  proof
    assume "p \<in> set (map ((#) (Key k)) (calls v))"
    then show ?thesis using kv by auto
  next
    assume "p \<in> set (callsFields obj)"
    from Cons.IH[OF this] show ?thesis by auto
  qed
qed

lemma callsItems_head: "p \<in> set (callsItems i xs) \<Longrightarrow> \<exists>j q. p = Index j # q \<and> i \<le> j"
proof (induction xs arbitrary: i)
  case Nil
  then show ?case by simp
next
  case (Cons x xs)
  from Cons.prems have "p \<in> set (map ((#) (Index i)) (calls x)) \<or> p \<in> set (callsItems (Suc i) xs)"
    by auto
  then show ?case
  proof
    assume "p \<in> set (map ((#) (Index i)) (calls x))"
    then show ?thesis by auto
  next
    assume "p \<in> set (callsItems (Suc i) xs)"
    from Cons.IH[OF this] obtain j q where "p = Index j # q" "Suc i \<le> j" by blast
    then show ?thesis by (intro exI[of _ j] exI[of _ q]) simp
  qed
qed


lemma distinct_calls:
  "wf_json v \<Longrightarrow> distinct (calls v)"
  "distinct (map fst obj) \<Longrightarrow> (\<forall>kv \<in> set obj. wf_json (snd kv)) \<Longrightarrow> distinct (callsFields obj)"
  "(\<forall>x \<in> set xs. wf_json x) \<Longrightarrow> distinct (callsItems i xs)"
proof (induction v and obj and i xs rule: calls_callsFields_callsItems.induct)
  case (1 obj)
  then have "distinct (callsFields obj)" by simp
  moreover have "[] \<notin> set (callsFields obj)" using callsFields_head[of "[]" obj] by blast
  ultimately show ?case by simp
next
  case (2 items)
  then have "distinct (callsItems 0 items)" by simp
  moreover have "[] \<notin> set (callsItems 0 items)" using callsItems_head[of "[]" 0 items] by blast
  ultimately show ?case by simp
next
  case (9 key "value" rest)
  have d: "distinct (callsFields rest)" using 9 by simp
  have disj: "Key key # q \<notin> set (callsFields rest)" for q
  proof
    assume "Key key # q \<in> set (callsFields rest)"
    from callsFields_head[OF this] have "key \<in> set (map fst rest)" by simp
    then show False using 9(3) by simp
  qed
  show ?case
  proof (cases "key = ''$id'' \<or> key = ''$ref''")
    case True
    then show ?thesis using d by auto
  next
    case False
    then have "distinct (calls value)" using 9 by simp
    then have "distinct (map ((#) (Key key)) (calls value))" by (simp add: distinct_map)
    then show ?thesis using False d disj by auto
  qed
next
  case (11 i item rest)
  have d: "distinct (callsItems (Suc i) rest)" using 11 by simp
  have "distinct (calls item)" using 11 by simp
  then have m: "distinct (map ((#) (Index i)) (calls item))" by (simp add: distinct_map)
  have disj: "Index i # q \<notin> set (callsItems (Suc i) rest)" for q
  proof
    assume "Index i # q \<in> set (callsItems (Suc i) rest)"
    from callsItems_head[OF this] show False by simp
  qed
  show ?case using d m disj by auto
qed simp_all

lemma map_of_patched_id:
  "map_of (concat (map (patchedEntry True) obj)) ''$id'' = map_of obj ''$id''"
proof (induction obj)
  case Nil
  then show ?case by simp
next
  case (Cons kv obj)
  show ?case
  proof (cases "fst kv = ''$id''")
    case True
    then show ?thesis by (cases kv) (simp add: patchedEntry_def)
  next
    case False
    then have "map_of (patchedEntry True kv @ concat (map (patchedEntry True) obj)) ''$id''
               = map_of (concat (map (patchedEntry True) obj)) ''$id''"
      by (intro map_of_patched_other) simp
    then show ?thesis using False Cons by (cases kv) simp
  qed
qed

section \<open>The recorded calls\<close>

lemma patchFieldsTraced_Cons_eq:
  assumes rest: "patchFieldsTraced rest r path = (Inr rest', log')"
    and v: "key \<noteq> ''$id'' \<Longrightarrow> key \<noteq> ''$ref'' \<Longrightarrow>
            patchTraced value False (path @ [Key key]) = (Inr (patched False value), log)"
  shows "patchFieldsTraced ((key, value) # rest) r path
         = (Inr (patchedEntry r (key, value) @ rest'),
            (if key = ''$id'' \<or> key = ''$ref'' then [] else log) @ log')"
proof (cases "key = ''$id''")
  case True
  then show ?thesis using rest by (simp add: patchedEntry_def)
next
  case nid: False
  show ?thesis
  proof (cases "key = ''$ref''")
    case True
    then show ?thesis using rest
      by (cases "value") (simp_all add: patchedEntry_def patchedRef_def encodeURIFragment_eq)
  next
    case nref: False
    then show ?thesis using nid rest v
      by (cases "key = ''additionalProperties''") (simp_all add: patchedEntry_def)
  qed
qed

lemma traced_eq:
  "patchTraced v r path = (patchSchemaInPlaceRecursive v r, map ((@) path) (calls v))"
  "patchFieldsTraced kvs r path = (patchFields kvs r, map ((@) path) (callsFields kvs))"
  "patchItemsTraced xs i path = (patchItems xs, map ((@) path) (callsItems i xs))"
proof (induction v and kvs and i xs arbitrary: r path and r path and path
       rule: calls_callsFields_callsItems.induct)
  case (1 obj)
  then show ?case by (simp add: patch_eq patched_object del: patched.simps)
next
  case (2 items)
  then show ?case by (simp add: patch_eq)
next
  case (9 key "value" rest)
  have rest: "patchFieldsTraced rest r path
              = (Inr (concat (map (patchedEntry r) rest)), map ((@) path) (callsFields rest))"
    using 9(2) by (simp only: patch_eq)
  have v: "patchTraced value False (path @ [Key key])
           = (Inr (patched False value), map ((@) (path @ [Key key])) (calls value))"
    if "key \<noteq> ''$id''" "key \<noteq> ''$ref''"
    using 9(1)[of False "path @ [Key key]"] that by (simp only: patch_eq) simp
  have m: "map ((@) (path @ [Key key])) (calls value)
           = map ((@) path) (map ((#) (Key key)) (calls value))"
    by simp
  have "patchFieldsTraced ((key, value) # rest) r path
        = (Inr (patchedEntry r (key, value) @ concat (map (patchedEntry r) rest)),
           (if key = ''$id'' \<or> key = ''$ref'' then []
            else map ((@) (path @ [Key key])) (calls value))
           @ map ((@) path) (callsFields rest))"
    by (rule patchFieldsTraced_Cons_eq[OF rest v])
  then show ?case
    unfolding patch_eq(2) m
    by (cases "key = ''$id'' \<or> key = ''$ref''") (simp_all del: patchFieldsTraced.simps)
next
  case (11 i item rest)
  have a: "patchTraced item False (path @ [Index i])
           = (Inr (patched False item), map ((@) (path @ [Index i])) (calls item))"
    using 11(1)[of False "path @ [Index i]"] by (simp only: patch_eq)
  have b: "patchItemsTraced rest (Suc i) path
           = (Inr (map (patched False) rest), map ((@) path) (callsItems (Suc i) rest))"
    using 11(2)[of path] by (simp only: patch_eq)
  show ?case by (simp add: a b patch_eq)
qed simp_all

lemma map_append_Nil: "map ((@) []) xs = xs"
  by (induction xs) simp_all

lemma visited_calls: "snd (patchTraced v r []) = calls v"
  by (simp add: traced_eq map_append_Nil)

lemma map_of_patched_plain:
  assumes "k \<noteq> ''$id''" "k \<noteq> ''$ref''" "map_of obj k = Some x"
    and "\<not> (k = ''additionalProperties'' \<and> x = JBool True)"
  shows "map_of (concat (map (patchedEntry r) obj)) k = Some (patched False x)"
  using assms(3)
proof (induction obj)
  case Nil
  then show ?case by simp
next
  case (Cons kv obj)
  show ?case
  proof (cases "fst kv = k")
    case True
    then have "snd kv = x" using Cons.prems by (cases kv) simp
    then have "patchedEntry r kv = [(k, patched False x)]"
      using True assms(1,2,4) by (auto simp: patchedEntry_def)
    then show ?thesis by simp
  next
    case False
    then have "map_of (patchedEntry r kv @ concat (map (patchedEntry r) obj)) k
               = map_of (concat (map (patchedEntry r) obj)) k"
      by (intro map_of_patched_other) simp
    moreover have "map_of obj k = Some x" using False Cons.prems by (cases kv) simp
    ultimately show ?thesis using Cons.IH by simp
  qed
qed

lemma subAt_scalar:
  "subAt JNull p = Some (JObject obj) \<Longrightarrow> False"
  "subAt (JBool b) p = Some (JObject obj) \<Longrightarrow> False"
  "subAt (JInt n) p = Some (JObject obj) \<Longrightarrow> False"
  "subAt (JString s) p = Some (JObject obj) \<Longrightarrow> False"
  "subAt (JOther t u) p = Some (JObject obj) \<Longrightarrow> False"
  by (cases p; simp)+

lemma reached_object:
  "plainPath p \<Longrightarrow> subAt v p = Some (JObject obj) \<Longrightarrow>
   subAt (patched r v) p = Some (JObject (concat (map (patchedEntry (r \<and> p = [])) obj)))"
proof (induction p arbitrary: v r)
  case Nil
  then show ?case by (simp add: patched_object del: patched.simps)
next
  case (Cons st p)
  show ?case
  proof (cases st)
    case (Key k)
    then have k: "k \<noteq> ''$id''" "k \<noteq> ''$ref''" and pp: "plainPath p"
      using Cons.prems(1) by (simp_all add: plainPath_simps)
    from Cons.prems(2) Key obtain ob where v: "v = JObject ob"
      by (cases v) simp_all
    from Cons.prems(2) Key v obtain x where x: "map_of ob k = Some x" "subAt x p = Some (JObject obj)"
      by (auto split: option.splits)
    have nb: "\<not> (k = ''additionalProperties'' \<and> x = JBool True)"
      using x(2) subAt_scalar(2) by blast
    have "map_of (concat (map (patchedEntry r) ob)) k = Some (patched False x)"
      by (rule map_of_patched_plain[OF k x(1) nb])
    moreover have "subAt (patched False x) p = Some (JObject (concat (map (patchedEntry False) obj)))"
      using Cons.IH[OF pp x(2), of False] by simp
    ultimately show ?thesis unfolding v Key patched_object by simp
  next
    case (Index i)
    then have pp: "plainPath p" using Cons.prems(1) by (simp add: plainPath_simps)
    from Cons.prems(2) Index obtain xs where v: "v = JArray xs"
      by (cases v) simp_all
    from Cons.prems(2) Index v have i: "i < length xs" "subAt (xs ! i) p = Some (JObject obj)"
      by (auto split: if_splits)
    have "subAt (patched False (xs ! i)) p = Some (JObject (concat (map (patchedEntry False) obj)))"
      using Cons.IH[OF pp i(2), of False] by simp
    then show ?thesis unfolding v Index using i(1) by simp
  qed
qed

lemma called_object:
  assumes "p \<in> set (snd (patchTraced v r []))" "subAt v p = Some (JObject obj)"
  shows "\<exists>obj'. subAt (patched r v) p = Some (JObject obj')
           \<and> (''additionalProperties'', JBool True) \<notin> set obj'
           \<and> map_of obj' ''$ref'' = map_option patchedRef (map_of obj ''$ref'')
           \<and> (p \<noteq> [] \<longrightarrow> ''$id'' \<notin> fst ` set obj')"
proof -
  have pp: "plainPath p" using assms(1) by (simp add: visited_calls calls_nodes_mem)
  let ?o = "concat (map (patchedEntry (r \<and> p = [])) obj)"
  have "subAt (patched r v) p = Some (JObject ?o)" by (rule reached_object[OF pp assms(2)])
  moreover have "(''additionalProperties'', JBool True) \<notin> set ?o"
    by (rule no_additionalProperties_true)
  moreover have "map_of ?o ''$ref'' = map_option patchedRef (map_of obj ''$ref'')"
    by (rule map_of_patched_ref)
  moreover have "p \<noteq> [] \<longrightarrow> ''$id'' \<notin> fst ` set ?o"
    using patchedEntry_keys_nonroot by auto
  ultimately show ?thesis by blast
qed


text \<open>
  C2, as amended. The object \<open>{"additionalProperties": true, "$ref": "foo.spec.yml#/bar^baz"}\<close>
  is patched to \<open>{"$ref": "foo.jsonschema.json#/bar%5Ebaz"}\<close>, at the root and below
  it. For every object the pass is called on, the root and every nested one (at the path
  \<open>p\<close> of a recorded call): the object is still at its path in the returned
  document, no \<open>additionalProperties: true\<close> is left in it, and a string \<open>$ref\<close> of
  it has its leftmost \<open>.spec.yml\<close> (in the base or in the fragment, suffix or not)
  replaced by \<open>.jsonschema.json\<close>, and then every caret from the first \<open>#\<close> on
  replaced by \<open>%5E\<close>, the rest being unchanged.
\<close>

theorem C2_ref_rewritten:
  "patchSchemaInPlaceRecursive
     (JObject [(''additionalProperties'', JBool True), (''$ref'', JString ''foo.spec.yml#/bar^baz'')])
     isRoot
   = Inr (JObject [(''$ref'', JString ''foo.jsonschema.json#/bar%5Ebaz'')])
   \<and> (\<exists>obj'. patchSchemaInPlaceRecursive (JObject obj) isRoot = Inr (JObject obj')
         \<and> (''additionalProperties'', JBool True) \<notin> set obj'
         \<and> (\<forall>s. map_of obj ''$ref'' = Some (JString s)
                \<longrightarrow> map_of obj' ''$ref'' = Some (JString (amendedRef s))))
   \<and> (\<exists>v' visited.
         patchTraced v isRoot [] = (Inr v', visited)
         \<and> patchSchemaInPlaceRecursive v isRoot = Inr v'
         \<and> (\<forall>p ob. p \<in> set visited \<and> subAt v p = Some (JObject ob)
               \<longrightarrow> (\<exists>ob'. subAt v' p = Some (JObject ob')
                      \<and> (''additionalProperties'', JBool True) \<notin> set ob'
                      \<and> (\<forall>s. map_of ob ''$ref'' = Some (JString s)
                             \<longrightarrow> map_of ob' ''$ref'' = Some (JString (amendedRef s))))))"
proof -
  have "patched isRoot
     (JObject [(''additionalProperties'', JBool True), (''$ref'', JString ''foo.spec.yml#/bar^baz'')])
     = JObject [(''$ref'', JString ''foo.jsonschema.json#/bar%5Ebaz'')]"
    by (simp add: patchedRef_def encodedRef_def)
  then have a: "patchSchemaInPlaceRecursive
     (JObject [(''additionalProperties'', JBool True), (''$ref'', JString ''foo.spec.yml#/bar^baz'')])
     isRoot
   = Inr (JObject [(''$ref'', JString ''foo.jsonschema.json#/bar%5Ebaz'')])"
    by (simp only: patch_eq)
  have b: "patchSchemaInPlaceRecursive (JObject obj) isRoot
           = Inr (JObject (concat (map (patchedEntry isRoot) obj)))"
    by (simp only: patch_eq patched_object)
  have c: "\<forall>s. map_of obj ''$ref'' = Some (JString s)
              \<longrightarrow> map_of (concat (map (patchedEntry isRoot) obj)) ''$ref'' = Some (JString (amendedRef s))"
    by (simp add: map_of_patched_ref patchedRef_amended)
  have ab: "\<exists>obj'. patchSchemaInPlaceRecursive (JObject obj) isRoot = Inr (JObject obj')
         \<and> (''additionalProperties'', JBool True) \<notin> set obj'
         \<and> (\<forall>s. map_of obj ''$ref'' = Some (JString s)
                \<longrightarrow> map_of obj' ''$ref'' = Some (JString (amendedRef s)))"
    using b c no_additionalProperties_true[of isRoot obj] by blast
  have t: "patchTraced v isRoot [] = (Inr (patched isRoot v), calls v)"
    by (simp add: traced_eq patch_eq map_append_Nil)
  have d: "\<exists>ob'. subAt (patched isRoot v) p = Some (JObject ob')
             \<and> (''additionalProperties'', JBool True) \<notin> set ob'
             \<and> (\<forall>s. map_of ob ''$ref'' = Some (JString s)
                    \<longrightarrow> map_of ob' ''$ref'' = Some (JString (amendedRef s)))"
    if "p \<in> set (calls v)" "subAt v p = Some (JObject ob)" for p ob
  proof -
    from that(1) have "p \<in> set (snd (patchTraced v isRoot []))" by (simp only: t snd_conv)
    from called_object[OF this that(2)] obtain ob' where
      ob': "subAt (patched isRoot v) p = Some (JObject ob')"
           "(''additionalProperties'', JBool True) \<notin> set ob'"
           "map_of ob' ''$ref'' = map_option patchedRef (map_of ob ''$ref'')"
      by blast
    have "\<forall>s. map_of ob ''$ref'' = Some (JString s)
              \<longrightarrow> map_of ob' ''$ref'' = Some (JString (amendedRef s))"
      by (simp add: ob'(3) patchedRef_amended)
    with ob'(1,2) show ?thesis by blast
  qed
  have e: "\<exists>v' visited.
         patchTraced v isRoot [] = (Inr v', visited)
         \<and> patchSchemaInPlaceRecursive v isRoot = Inr v'
         \<and> (\<forall>p ob. p \<in> set visited \<and> subAt v p = Some (JObject ob)
               \<longrightarrow> (\<exists>ob'. subAt v' p = Some (JObject ob')
                      \<and> (''additionalProperties'', JBool True) \<notin> set ob'
                      \<and> (\<forall>s. map_of ob ''$ref'' = Some (JString s)
                             \<longrightarrow> map_of ob' ''$ref'' = Some (JString (amendedRef s)))))"
  proof (intro exI conjI)
    show "patchTraced v isRoot [] = (Inr (patched isRoot v), calls v)" by (rule t)
    show "patchSchemaInPlaceRecursive v isRoot = Inr (patched isRoot v)" by (simp only: patch_eq)
    show "\<forall>p ob. p \<in> set (calls v) \<and> subAt v p = Some (JObject ob)
            \<longrightarrow> (\<exists>ob'. subAt (patched isRoot v) p = Some (JObject ob')
                   \<and> (''additionalProperties'', JBool True) \<notin> set ob'
                   \<and> (\<forall>s. map_of ob ''$ref'' = Some (JString s)
                          \<longrightarrow> map_of ob' ''$ref'' = Some (JString (amendedRef s))))"
      using d by blast
  qed
  show ?thesis using a ab e by (intro conjI)
qed

theorem C2_ref_rewritten_witness:
  "[Key ''properties'', Key ''a'']
     \<in> set (snd (patchTraced
          (JObject [(''properties'', JObject [(''a'',
             JObject [(''additionalProperties'', JBool True),
                      (''$ref'', JString ''a.yml#/x.spec.yml^'')])])])
          True []))
   \<and> subAt (JObject [(''properties'', JObject [(''a'',
               JObject [(''additionalProperties'', JBool True),
                        (''$ref'', JString ''a.yml#/x.spec.yml^'')])])])
        [Key ''properties'', Key ''a'']
      = Some (JObject [(''additionalProperties'', JBool True),
                       (''$ref'', JString ''a.yml#/x.spec.yml^'')])
   \<and> (\<exists>v' ob'.
         patchSchemaInPlaceRecursive
           (JObject [(''properties'', JObject [(''a'',
              JObject [(''additionalProperties'', JBool True),
                       (''$ref'', JString ''a.yml#/x.spec.yml^'')])])])
           True
         = Inr v'
         \<and> subAt v' [Key ''properties'', Key ''a''] = Some (JObject ob')
         \<and> (''additionalProperties'', JBool True) \<notin> set ob'
         \<and> map_of ob' ''$ref'' = Some (JString ''a.yml#/x.jsonschema.json%5E''))"
proof -
  define V where "V = JObject [(''properties'', JObject [(''a'',
             JObject [(''additionalProperties'', JBool True),
                      (''$ref'', JString ''a.yml#/x.spec.yml^'')])])]"
  define OB where "OB = [(''additionalProperties'', JBool True),
                      (''$ref'', JString ''a.yml#/x.spec.yml^'')]"
  have a: "amendedRef ''a.yml#/x.spec.yml^'' = ''a.yml#/x.jsonschema.json%5E''"
    by code_simp
  have m: "[Key ''properties'', Key ''a''] \<in> set (snd (patchTraced V True []))"
    unfolding V_def by code_simp
  have s: "subAt V [Key ''properties'', Key ''a''] = Some (JObject OB)"
    unfolding V_def OB_def by code_simp
  have r: "map_of OB ''$ref'' = Some (JString ''a.yml#/x.spec.yml^'')"
    unfolding OB_def by simp
  from C2_ref_rewritten[of True "[]" V] obtain v' visited where
    t: "patchTraced V True [] = (Inr v', visited)"
    and q: "patchSchemaInPlaceRecursive V True = Inr v'"
    and all: "\<forall>p ob. p \<in> set visited \<and> subAt V p = Some (JObject ob)
               \<longrightarrow> (\<exists>ob'. subAt v' p = Some (JObject ob')
                      \<and> (''additionalProperties'', JBool True) \<notin> set ob'
                      \<and> (\<forall>s. map_of ob ''$ref'' = Some (JString s)
                             \<longrightarrow> map_of ob' ''$ref'' = Some (JString (amendedRef s))))"
    by (elim conjE exE)
  from m t have "[Key ''properties'', Key ''a''] \<in> set visited" by simp
  with all s obtain ob' where
    ob': "subAt v' [Key ''properties'', Key ''a''] = Some (JObject ob')"
         "(''additionalProperties'', JBool True) \<notin> set ob'"
         "\<forall>s. map_of ob ''$ref'' = Some (JString s)
               \<longrightarrow> map_of ob' ''$ref'' = Some (JString (amendedRef s))"
    if "ob = OB" for ob
    by blast
  have "map_of ob' ''$ref'' = Some (JString ''a.yml#/x.jsonschema.json%5E'')"
    using ob'(3)[OF refl] r a by simp
  with q ob'(1,2)[OF refl] m s show ?thesis unfolding V_def OB_def by blast
qed


text \<open>
  C2, as stated, fails: the fragment \<open>/x.spec.yml\<close> has no caret and the base
  \<open>a.yml\<close> has no \<open>.spec.yml\<close> suffix, so the specification leaves the reference as
  it is, and the pass rewrites its fragment.
\<close>

theorem C2_ref_suffix_counterexample:
  "patchSchemaInPlace (JObject [(''$ref'', JString ''a.yml#/x.spec.yml'')])
     = Inr (JObject [(''$ref'', JString ''a.yml#/x.jsonschema.json'')])
   \<and> claimedRef ''a.yml#/x.spec.yml'' = ''a.yml#/x.spec.yml''"
  by code_simp

text \<open>
  C3, as amended. One run of the pass, with its calls recorded, returns the document of
  \<open>patchSchemaInPlaceRecursive\<close>; it calls itself exactly on the values whose path from
  the root goes through array items and through keys other than \<open>$id\<close> and \<open>$ref\<close>,
  and on none of them twice (the keys of a map being distinct); after the pass no object
  among these, other than the root, has a key \<open>$id\<close>, in the whole document and at the
  path of each call. The value of a \<open>$ref\<close> that is not a string, in any object the
  pass is called on, and the value of the \<open>$id\<close> of the root, are left as they are,
  with every \<open>$id\<close> inside them. A value of another dynamic type (a map whose keys are
  not strings) is called on once and returned as it is: nothing inside it is visited.
\<close>

theorem C3_reached_ids_removed:
  "(\<exists>v' visited.
      patchTraced v isRoot [] = (Inr v', visited)
      \<and> patchSchemaInPlaceRecursive v isRoot = Inr v'
      \<and> noReachedId isRoot v'
      \<and> set visited = {p \<in> set (nodes v). plainPath p}
      \<and> (wf_json v \<longrightarrow> distinct visited)
      \<and> (\<forall>p ob. p \<in> set visited \<and> p \<noteq> [] \<and> subAt v p = Some (JObject ob)
            \<longrightarrow> (\<exists>ob'. subAt v' p = Some (JObject ob') \<and> ''$id'' \<notin> fst ` set ob'))
      \<and> (\<forall>p ob x. p \<in> set visited \<and> subAt v p = Some (JObject ob)
                   \<and> map_of ob ''$ref'' = Some x \<and> (\<forall>s. x \<noteq> JString s)
            \<longrightarrow> (\<exists>ob'. subAt v' p = Some (JObject ob') \<and> map_of ob' ''$ref'' = Some x)))
   \<and> (\<exists>obj'. patchSchemaInPlaceRecursive (JObject obj) isRoot = Inr (JObject obj')
         \<and> (\<forall>x. map_of obj ''$ref'' = Some x \<and> (\<forall>s. x \<noteq> JString s)
                \<longrightarrow> map_of obj' ''$ref'' = Some x)
         \<and> (isRoot \<longrightarrow> map_of obj' ''$id'' = map_of obj ''$id''))
   \<and> patchTraced (JOther t u) isRoot path = (Inr (JOther t u), [path])"
proof -
  have a: "patchSchemaInPlaceRecursive v isRoot = Inr (patched isRoot v)"
    by (simp only: patch_eq)
  have t: "patchTraced v isRoot [] = (Inr (patched isRoot v), calls v)"
    by (simp add: traced_eq patch_eq map_append_Nil)
  have b: "patchSchemaInPlaceRecursive (JObject obj) isRoot
           = Inr (JObject (concat (map (patchedEntry isRoot) obj)))"
    by (simp only: patch_eq patched_object)
  have c: "map_of (concat (map (patchedEntry isRoot) obj)) ''$ref'' = Some x"
    if "map_of obj ''$ref'' = Some x" "\<forall>s. x \<noteq> JString s" for x
    using that by (cases x) (simp_all add: map_of_patched_ref patchedRef_def)
  have d: "set (calls v) = {p \<in> set (nodes v). plainPath p}"
    using calls_nodes_mem(1)[of _ v] by blast
  have g: "\<exists>ob'. subAt (patched isRoot v) p = Some (JObject ob') \<and> ''$id'' \<notin> fst ` set ob'"
    if "p \<in> set (calls v)" "p \<noteq> []" "subAt v p = Some (JObject ob)" for p ob
  proof -
    from that(1) have "p \<in> set (snd (patchTraced v isRoot []))" by (simp only: t snd_conv)
    from called_object[OF this that(3)] that(2) show ?thesis by blast
  qed
  have h: "\<exists>ob'. subAt (patched isRoot v) p = Some (JObject ob') \<and> map_of ob' ''$ref'' = Some x"
    if "p \<in> set (calls v)" "subAt v p = Some (JObject ob)" "map_of ob ''$ref'' = Some x"
       "\<forall>s. x \<noteq> JString s" for p ob x
  proof -
    from that(1) have "p \<in> set (snd (patchTraced v isRoot []))" by (simp only: t snd_conv)
    from called_object[OF this that(2)] obtain ob' where
      ob': "subAt (patched isRoot v) p = Some (JObject ob')"
           "map_of ob' ''$ref'' = map_option patchedRef (map_of ob ''$ref'')"
      by blast
    have "patchedRef x = x" using that(4) by (cases x) (simp_all add: patchedRef_def)
    then have "map_of ob' ''$ref'' = Some x" using ob'(2) that(3) by simp
    with ob'(1) show ?thesis by blast
  qed
  have e: "\<exists>v' visited.
      patchTraced v isRoot [] = (Inr v', visited)
      \<and> patchSchemaInPlaceRecursive v isRoot = Inr v'
      \<and> noReachedId isRoot v'
      \<and> set visited = {p \<in> set (nodes v). plainPath p}
      \<and> (wf_json v \<longrightarrow> distinct visited)
      \<and> (\<forall>p ob. p \<in> set visited \<and> p \<noteq> [] \<and> subAt v p = Some (JObject ob)
            \<longrightarrow> (\<exists>ob'. subAt v' p = Some (JObject ob') \<and> ''$id'' \<notin> fst ` set ob'))
      \<and> (\<forall>p ob x. p \<in> set visited \<and> subAt v p = Some (JObject ob)
                   \<and> map_of ob ''$ref'' = Some x \<and> (\<forall>s. x \<noteq> JString s)
            \<longrightarrow> (\<exists>ob'. subAt v' p = Some (JObject ob') \<and> map_of ob' ''$ref'' = Some x))"
  proof (intro exI conjI)
    show "patchTraced v isRoot [] = (Inr (patched isRoot v), calls v)" by (rule t)
    show "patchSchemaInPlaceRecursive v isRoot = Inr (patched isRoot v)" by (rule a)
    show "noReachedId isRoot (patched isRoot v)" by (rule noReachedId_patched)
    show "set (calls v) = {p \<in> set (nodes v). plainPath p}" by (rule d)
    show "wf_json v \<longrightarrow> distinct (calls v)" using distinct_calls(1)[of v] by blast
    show "\<forall>p ob. p \<in> set (calls v) \<and> p \<noteq> [] \<and> subAt v p = Some (JObject ob)
            \<longrightarrow> (\<exists>ob'. subAt (patched isRoot v) p = Some (JObject ob') \<and> ''$id'' \<notin> fst ` set ob')"
      using g by blast
    show "\<forall>p ob x. p \<in> set (calls v) \<and> subAt v p = Some (JObject ob)
                   \<and> map_of ob ''$ref'' = Some x \<and> (\<forall>s. x \<noteq> JString s)
            \<longrightarrow> (\<exists>ob'. subAt (patched isRoot v) p = Some (JObject ob') \<and> map_of ob' ''$ref'' = Some x)"
      using h by blast
  qed
  have f: "\<exists>obj'. patchSchemaInPlaceRecursive (JObject obj) isRoot = Inr (JObject obj')
         \<and> (\<forall>x. map_of obj ''$ref'' = Some x \<and> (\<forall>s. x \<noteq> JString s)
                \<longrightarrow> map_of obj' ''$ref'' = Some x)
         \<and> (isRoot \<longrightarrow> map_of obj' ''$id'' = map_of obj ''$id'')"
  proof (intro exI conjI)
    show "patchSchemaInPlaceRecursive (JObject obj) isRoot
           = Inr (JObject (concat (map (patchedEntry isRoot) obj)))"
      by (rule b)
    show "\<forall>x. map_of obj ''$ref'' = Some x \<and> (\<forall>s. x \<noteq> JString s)
                \<longrightarrow> map_of (concat (map (patchedEntry isRoot) obj)) ''$ref'' = Some x"
      using c by blast
    show "isRoot \<longrightarrow> map_of (concat (map (patchedEntry isRoot) obj)) ''$id'' = map_of obj ''$id''"
      using map_of_patched_id[of obj] by simp
  qed
  have l: "patchTraced (JOther t u) isRoot path = (Inr (JOther t u), [path])" by simp
  show ?thesis using e f l by (intro conjI)
qed

theorem C3_reached_ids_removed_witness:
  "wf_json (JObject [(''a'', JObject [(''$id'', JString ''x''),
                                      (''$ref'', JObject [(''$id'', JString ''y'')]),
                                      (''b'', JArray [JObject [(''$id'', JString ''z'')]])])])
   \<and> (\<exists>v' visited.
        patchTraced
          (JObject [(''a'', JObject [(''$id'', JString ''x''),
                                     (''$ref'', JObject [(''$id'', JString ''y'')]),
                                     (''b'', JArray [JObject [(''$id'', JString ''z'')]])])])
          True []
        = (Inr v', visited)
        \<and> distinct visited
        \<and> [Key ''a''] \<in> set visited
        \<and> subAt v' [Key ''a'']
            = Some (JObject [(''$ref'', JObject [(''$id'', JString ''y'')]),
                             (''b'', JArray [JObject []])]))"
proof -
  define V where "V = JObject [(''a'', JObject [(''$id'', JString ''x''),
                                      (''$ref'', JObject [(''$id'', JString ''y'')]),
                                      (''b'', JArray [JObject [(''$id'', JString ''z'')]])])]"
  have w: "wf_json V" unfolding V_def by simp
  have r: "patchSchemaInPlaceRecursive V True
           = Inr (JObject [(''a'', JObject [(''$ref'', JObject [(''$id'', JString ''y'')]),
                                           (''b'', JArray [JObject []])])])"
    unfolding V_def by code_simp
  have m: "[Key ''a''] \<in> {p \<in> set (nodes V). plainPath p}"
    unfolding V_def plainPath_def by simp
  from C3_reached_ids_removed[of V True "[]" "[]" "[]" "[]"] obtain v' visited where
    t: "patchTraced V True [] = (Inr v', visited)"
    and q: "patchSchemaInPlaceRecursive V True = Inr v'"
    and s: "set visited = {p \<in> set (nodes V). plainPath p}"
    and d: "wf_json V \<longrightarrow> distinct visited"
    by (elim conjE exE)
  have "v' = JObject [(''a'', JObject [(''$ref'', JObject [(''$id'', JString ''y'')]),
                                           (''b'', JArray [JObject []])])]"
    using q r by simp
  then have "subAt v' [Key ''a'']
            = Some (JObject [(''$ref'', JObject [(''$id'', JString ''y'')]),
                             (''b'', JArray [JObject []])])"
    by simp
  moreover have "[Key ''a''] \<in> set visited" using m s by simp
  moreover have "distinct visited" using d w by simp
  ultimately show ?thesis using w t unfolding V_def by blast
qed

text \<open>
  C3, as stated, fails: the object under a \<open>$ref\<close> that is not a string is not
  called on, and keeps its \<open>$id\<close>.
\<close>

theorem C3_nested_id_counterexample:
  "patchSchema exampleEnv ''3.4.1'' ''a.jsonschema.json'' [(''$ref'', JObject [(''$id'', JString ''x'')])]
     = Inr (JObject [(''$ref'', JObject [(''$id'', JString ''x'')]),
                     (''$schema'', JString ''https://json-schema.org/draft/2020-12/schema''),
                     (''$id'', JString ''https://schemas.elastic.dev/package-spec/3.4.1/a.jsonschema.json'')])
   \<and> \<not> noNestedId True
         (JObject [(''$ref'', JObject [(''$id'', JString ''x'')]),
                   (''$schema'', JString ''https://json-schema.org/draft/2020-12/schema''),
                   (''$id'', JString ''https://schemas.elastic.dev/package-spec/3.4.1/a.jsonschema.json'')])
   \<and> [Key ''$ref''] \<in> set (nodes (JObject [(''$ref'', JObject [(''$id'', JString ''x'')])]))
   \<and> [Key ''$ref''] \<notin> set (calls (JObject [(''$ref'', JObject [(''$id'', JString ''x'')])]))
   \<and> patchTraced (JObject [(''$ref'', JObject [(''$id'', JString ''x'')])]) True []
       = (Inr (JObject [(''$ref'', JObject [(''$id'', JString ''x'')])]), [[]])"
  by code_simp


section \<open>Patching twice\<close>

lemma sublist_skip_char:
  assumes "x \<notin> set old" "sublist old (a @ x # b)"
  shows "sublist old a \<or> sublist old b"
proof -
  from assms(2) consider "sublist old a" | "sublist old (x # b)"
    | xs1 xs2 where "old = xs1 @ xs2" "suffix xs1 a" "prefix xs2 (x # b)"
    unfolding sublist_append by blast
  then show ?thesis
  proof cases
    case 1
    then show ?thesis by simp
  next
    case 2
    then have "prefix old (x # b) \<or> sublist old b" by (simp add: sublist_Cons_right)
    then show ?thesis
    proof
      assume "prefix old (x # b)"
      then have "old = []" using assms(1) by (cases old) auto
      then show ?thesis by simp
    qed simp
  next
    case 3
    from 3(3) have "xs2 = []" using assms(1) 3(1) by (cases xs2) auto
    then show ?thesis using 3 by auto
  qed
qed

lemma sublist_skip_Cons:
  assumes "x \<notin> set old" "sublist old (x # b)"
  shows "sublist old b"
proof -
  from sublist_skip_char[OF assms(1), of "[]" b] assms(2)
  have "sublist old [] \<or> sublist old b" by simp
  then show ?thesis by auto
qed

lemma sublist_caretsEncoded:
  assumes "CHR ''%'' \<notin> set old" "CHR ''5'' \<notin> set old" "CHR ''E'' \<notin> set old"
  shows "sublist old (a @ caretsEncoded f) \<Longrightarrow> sublist old (a @ f)"
proof (induction f arbitrary: a)
  case Nil
  then show ?case by (simp add: caretsEncoded_def)
next
  case (Cons c f)
  show ?case
  proof (cases "c = CHR ''^''")
    case True
    then have "sublist old (a @ CHR ''%'' # (CHR ''5'' # CHR ''E'' # caretsEncoded f))"
      using Cons.prems by (simp add: caretsEncoded_def)
    from sublist_skip_char[OF assms(1) this]
    have "sublist old a \<or> sublist old (CHR ''5'' # (CHR ''E'' # caretsEncoded f))" .
    then show ?thesis
    proof
      assume "sublist old a"
      then show ?thesis by (simp add: sublist_append)
    next
      assume "sublist old (CHR ''5'' # (CHR ''E'' # caretsEncoded f))"
      from sublist_skip_Cons[OF assms(2) this] have "sublist old (CHR ''E'' # caretsEncoded f)" .
      from sublist_skip_Cons[OF assms(3) this] have "sublist old ([] @ caretsEncoded f)" by simp
      from Cons.IH[OF this] have "sublist old f" by simp
      then have "sublist old (c # f)" by (simp add: sublist_Cons_right)
      then show ?thesis by (simp add: sublist_append)
    qed
  next
    case False
    then have "sublist old ((a @ [c]) @ caretsEncoded f)"
      using Cons.prems by (simp add: caretsEncoded_def)
    from Cons.IH[OF this] show ?thesis by simp
  qed
qed

lemma caretsEncoded_idem: "caretsEncoded (caretsEncoded f) = caretsEncoded f"
  by (induction f) (auto simp: caretsEncoded_def)

lemma caretsEncoded_hash: "caretsEncoded (CHR ''#'' # f) = CHR ''#'' # caretsEncoded f"
  by (simp add: caretsEncoded_def)

lemma fragmentEncoded_idem: "fragmentEncoded (fragmentEncoded t) = fragmentEncoded t"
proof (cases "CHR ''#'' \<in> set t")
  case True
  define b where "b = takeWhile (\<lambda>c. c \<noteq> CHR ''#'') t"
  obtain f where f: "dropWhile (\<lambda>c. c \<noteq> CHR ''#'') t = CHR ''#'' # f"
    using dropWhile_hd[OF True] by blast
  have nb: "\<forall>c \<in> set b. c \<noteq> CHR ''#''" unfolding b_def by (auto dest: set_takeWhileD)
  have e: "fragmentEncoded t = b @ CHR ''#'' # caretsEncoded f"
    by (simp add: fragmentEncoded_def b_def f caretsEncoded_hash)
  have tw: "takeWhile (\<lambda>c. c \<noteq> CHR ''#'') (b @ CHR ''#'' # caretsEncoded f) = b"
    using nb by (simp add: takeWhile_append2)
  have dw: "dropWhile (\<lambda>c. c \<noteq> CHR ''#'') (b @ CHR ''#'' # caretsEncoded f) = CHR ''#'' # caretsEncoded f"
    using nb by (simp add: dropWhile_append2)
  show ?thesis unfolding e
    by (simp add: fragmentEncoded_def tw dw caretsEncoded_hash caretsEncoded_idem del: takeWhile_append2 dropWhile_append2)
next
  case False
  then have tw: "takeWhile (\<lambda>x. x \<noteq> CHR ''#'') t = t"
    and dw: "dropWhile (\<lambda>x. x \<noteq> CHR ''#'') t = []"
    by (auto simp: takeWhile_eq_all_conv dropWhile_eq_Nil_conv)
  have "fragmentEncoded t = t" by (simp add: fragmentEncoded_def tw dw caretsEncoded_def)
  then show ?thesis by simp
qed

lemma sublist_fragmentEncoded:
  "sublist ''.spec.yml'' (fragmentEncoded t) \<Longrightarrow> sublist ''.spec.yml'' t"
proof -
  assume a: "sublist ''.spec.yml'' (fragmentEncoded t)"
  have "sublist ''.spec.yml'' (takeWhile (\<lambda>c. c \<noteq> CHR ''#'') t @ dropWhile (\<lambda>c. c \<noteq> CHR ''#'') t)"
    by (rule sublist_caretsEncoded[OF _ _ _ a[unfolded fragmentEncoded_def]]) simp_all
  then show ?thesis by simp
qed

lemma stringsReplace1_absent: "\<not> sublist old s \<Longrightarrow> stringsReplace1 s old new = s"
  by (induction s) (auto simp: sublist_Cons_right)


lemma stringsReplace1_cut:
  "stringsReplace1 s old new = (case stringsCut s old of None \<Rightarrow> s | Some (p, q) \<Rightarrow> p @ new @ q)"
  by (induction s) (auto split: option.splits)

lemma stringsCut_before:
  "stringsCut s old = Some (p, q) \<Longrightarrow> old \<noteq> [] \<Longrightarrow> \<not> sublist old p"
proof (induction s arbitrary: p)
  case Nil
  then show ?case by simp
next
  case (Cons c cs)
  show ?case
  proof (cases "prefix old (c # cs)")
    case True
    then have "p = []" using Cons.prems by simp
    then show ?thesis using Cons.prems(2) by simp
  next
    case False
    then obtain p' where p': "stringsCut cs old = Some (p', q)" "p = c # p'"
      using Cons.prems by (auto split: option.splits)
    have cs: "cs = p' @ old @ q" using stringsCut_Some[OF p'(1)] .
    have "\<not> prefix old (c # p')"
    proof
      assume "prefix old (c # p')"
      then have "prefix old ((c # p') @ old @ q)" using prefix_prefix by blast
      then show False using False cs by simp
    qed
    moreover have "\<not> sublist old p'" using Cons.IH[OF p'(1) Cons.prems(2)] .
    ultimately show ?thesis using p'(2) by (simp add: sublist_Cons_right)
  qed
qed

lemma straddle_left:
  assumes "''.spec.yml'' = x1 @ x2" "x2 \<noteq> []" "prefix x2 (''.jsonschema.json'' @ q)"
  shows False
  using assms by (auto simp: Cons_eq_append_conv)

lemma straddle_right:
  assumes "''.spec.yml'' = y1 @ y2" "y1 \<noteq> []" "suffix y1 ''.jsonschema.json''"
  shows False
  using assms by (auto simp: Cons_eq_append_conv suffix_to_prefix)


lemma no_new_occurrence:
  assumes p: "\<not> sublist ''.spec.yml'' p" and q: "\<not> sublist ''.spec.yml'' q"
  shows "\<not> sublist ''.spec.yml'' (p @ ''.jsonschema.json'' @ q)"
proof
  assume "sublist ''.spec.yml'' (p @ ''.jsonschema.json'' @ q)"
  then consider "sublist ''.spec.yml'' p" | "sublist ''.spec.yml'' (''.jsonschema.json'' @ q)"
    | x1 x2 where "''.spec.yml'' = x1 @ x2" "suffix x1 p" "prefix x2 (''.jsonschema.json'' @ q)"
    unfolding sublist_append[of _ p] by blast
  then show False
  proof cases
    case 1
    then show ?thesis using p by simp
  next
    case 3
    show ?thesis
    proof (cases "x2 = []")
      case True
      then have "suffix ''.spec.yml'' p" using 3 by simp
      then show ?thesis using p by blast
    next
      case False
      then show ?thesis using straddle_left[OF 3(1) False 3(3)] by simp
    qed
  next
    case 2
    then consider "sublist ''.spec.yml'' ''.jsonschema.json''" | "sublist ''.spec.yml'' q"
      | y1 y2 where "''.spec.yml'' = y1 @ y2" "suffix y1 ''.jsonschema.json''" "prefix y2 q"
      unfolding sublist_append[of _ "''.jsonschema.json''"] by blast
    then show ?thesis
    proof cases
      case 1
      moreover have "\<not> sublist ''.spec.yml'' ''.jsonschema.json''" by code_simp
      ultimately show ?thesis by simp
    next
      case 2
      then show ?thesis using q by simp
    next
      case 3
      show ?thesis
      proof (cases "y1 = []")
        case True
        then have "prefix ''.spec.yml'' q" using 3 by simp
        then show ?thesis using q by blast
      next
        case False
        then show ?thesis using straddle_right[OF 3(1) False 3(2)] by simp
      qed
    qed
  qed
qed

lemma refOnce_replaced:
  assumes "refOnce (JString s)"
  shows "\<not> sublist ''.spec.yml'' (stringsReplace1 s ''.spec.yml'' ''.jsonschema.json'')"
proof (cases "stringsCut s ''.spec.yml''")
  case None
  then have "\<not> sublist ''.spec.yml'' s" by (simp add: stringsCut_None_iff)
  then show ?thesis using None by (simp add: stringsReplace1_cut)
next
  case (Some pq)
  obtain p q where pq: "pq = (p, q)" by (cases pq)
  have c: "stringsCut s ''.spec.yml'' = Some (p, q)" using Some pq by simp
  have "\<not> sublist ''.spec.yml'' p" by (rule stringsCut_before[OF c]) simp
  moreover have "\<not> sublist ''.spec.yml'' q" using assms c by (simp add: refOnce_def)
  ultimately have "\<not> sublist ''.spec.yml'' (p @ ''.jsonschema.json'' @ q)"
    by (rule no_new_occurrence)
  then show ?thesis using c by (simp add: stringsReplace1_cut)
qed

lemma patchedRef_idem:
  assumes "refOnce v"
  shows "patchedRef (patchedRef v) = patchedRef v"
proof (cases v)
  case (JString s)
  define r where "r = stringsReplace1 s ''.spec.yml'' ''.jsonschema.json''"
  have "\<not> sublist ''.spec.yml'' r" using assms JString refOnce_replaced by (simp add: r_def)
  then have "\<not> sublist ''.spec.yml'' (fragmentEncoded r)" using sublist_fragmentEncoded by blast
  then have "stringsReplace1 (fragmentEncoded r) ''.spec.yml'' ''.jsonschema.json'' = fragmentEncoded r"
    by (rule stringsReplace1_absent)
  then show ?thesis using JString
    by (simp add: patchedRef_def encodedRef_fragmentEncoded r_def fragmentEncoded_idem)
qed (simp_all add: patchedRef_def)

lemma patchedEntry_idem:
  assumes "fst kv = ''$ref'' \<Longrightarrow> refOnce (snd kv)"
    and "fst kv \<noteq> ''$id'' \<Longrightarrow> fst kv \<noteq> ''$ref'' \<Longrightarrow>
         patched False (patched False (snd kv)) = patched False (snd kv)"
  shows "concat (map (patchedEntry r) (patchedEntry r kv)) = patchedEntry r kv"
proof (cases "fst kv = ''$id''")
  case True
  then show ?thesis by (simp add: patchedEntry_def)
next
  case nid: False
  show ?thesis
  proof (cases "fst kv = ''$ref''")
    case True
    then show ?thesis using patchedRef_idem[OF assms(1)] by (simp add: patchedEntry_def)
  next
    case nref: False
    show ?thesis
    proof (cases "fst kv = ''additionalProperties'' \<and> snd kv = JBool True")
      case True
      then show ?thesis using nid nref by (simp add: patchedEntry_def)
    next
      case False
      then have "\<not> (fst kv = ''additionalProperties'' \<and> patched False (snd kv) = JBool True)"
        by (simp add: patched_JBool_True)
      then show ?thesis using nid nref False assms(2) by (simp add: patchedEntry_def)
    qed
  qed
qed

lemma refsOnce_object:
  "refsOnce (JObject obj) \<longleftrightarrow>
     (\<forall>kv \<in> set obj. (fst kv = ''$ref'' \<longrightarrow> refOnce (snd kv))
                     \<and> (fst kv \<noteq> ''$id'' \<and> fst kv \<noteq> ''$ref'' \<longrightarrow> refsOnce (snd kv)))"
proof -
  have "''$ref'' \<noteq> ''$id''" by simp
  then show ?thesis unfolding refsOnce.simps by (intro ball_cong refl) auto
qed

lemma patched_idem: "refsOnce v \<Longrightarrow> patched r (patched r v) = patched r v"
proof (induction r v rule: patched.induct)
  case (1 isRoot obj)
  have "concat (map (patchedEntry isRoot) (patchedEntry isRoot kv)) = patchedEntry isRoot kv"
    if "kv \<in> set obj" for kv
  proof (rule patchedEntry_idem)
    show "refOnce (snd kv)" if "fst kv = ''$ref''"
      using 1(2) \<open>kv \<in> set obj\<close> that unfolding refsOnce_object by blast
    show "patched False (patched False (snd kv)) = patched False (snd kv)"
      if "fst kv \<noteq> ''$id''" "fst kv \<noteq> ''$ref''"
    proof (cases "fst kv = ''additionalProperties'' \<and> snd kv = JBool True")
      case True
      then show ?thesis by simp
    next
      case False
      have "refsOnce (snd kv)" using 1(2) \<open>kv \<in> set obj\<close> that unfolding refsOnce_object by blast
      with 1(1)[OF \<open>kv \<in> set obj\<close> that False] show ?thesis .
    qed
  qed
  then have "concat (map (patchedEntry isRoot) (concat (map (patchedEntry isRoot) obj)))
             = concat (map (patchedEntry isRoot) obj)"
    by (induction obj) simp_all
  then show ?case by (simp only: patched_object)
next
  case (2 isRoot items)
  then show ?case by (simp cong: map_cong)
qed simp_all


lemma set_update_subset: "set (AList.update k v al) \<subseteq> insert (k, v) (set al)"
  by (induction al) auto

lemma refsOnce_update:
  assumes "refsOnce (JObject obj)" "k \<noteq> ''$ref''"
  shows "refsOnce (JObject (AList.update k (JString x) obj))"
proof -
  have "(fst kv = ''$ref'' \<longrightarrow> refOnce (snd kv))
        \<and> (fst kv \<noteq> ''$id'' \<and> fst kv \<noteq> ''$ref'' \<longrightarrow> refsOnce (snd kv))"
    if "kv \<in> set (AList.update k (JString x) obj)" for kv
  proof (cases "kv = (k, JString x)")
    case True
    then show ?thesis using assms(2) by simp
  next
    case False
    then have "kv \<in> set obj" using that set_update_subset[of k "JString x" obj] by auto
    then show ?thesis using assms(1) unfolding refsOnce_object by blast
  qed
  then show ?thesis unfolding refsOnce_object by blast
qed

lemma map_of_patched_schema:
  "map_of obj ''$schema'' = Some (JString x)
   \<Longrightarrow> map_of (concat (map (patchedEntry r) obj)) ''$schema'' = Some (JString x)"
proof (induction obj)
  case Nil
  then show ?case by simp
next
  case (Cons kv obj)
  show ?case
  proof (cases "fst kv = ''$schema''")
    case True
    then have "snd kv = JString x" using Cons.prems by (cases kv) simp
    then show ?thesis using True by (cases kv) (simp add: patchedEntry_def)
  next
    case False
    then have "map_of (patchedEntry r kv @ concat (map (patchedEntry r) obj)) ''$schema''
               = map_of (concat (map (patchedEntry r) obj)) ''$schema''"
      by (intro map_of_patched_other) simp
    then show ?thesis using False Cons by (cases kv) simp
  qed
qed

text \<open>
  C4, as amended. If every \<open>$ref\<close> string that the pass rewrites contains
  \<open>.spec.yml\<close> at most once, then patching the patched document again, with the same
  version and relative path, returns the same document.
\<close>

theorem C4_patch_idempotent:
  assumes "refsOnce (JObject spec)"
    and "patchSchema E version relativePath spec = Inr d"
  shows "\<exists>spec'. d = JObject spec' \<and> patchSchema E version relativePath spec' = Inr d"
proof -
  from assms(2) obtain sid where sid: "schemaID E version relativePath = Inr sid"
    by (cases "schemaID E version relativePath") (simp_all add: patchSchema_def)
  define spec2 where
    "spec2 = AList.update ''$id'' (JString sid) (AList.update ''$schema'' (JString (dialect E)) spec)"
  define spec' where "spec' = concat (map (patchedEntry True) spec2)"
  have d: "d = JObject spec'"
    using assms(2) sid
    by (simp add: patchSchema_def patchSchemaInPlace_def patch_eq patched_object spec2_def spec'_def
             del: patched.simps)
  have r2: "refsOnce (JObject spec2)"
    unfolding spec2_def using assms(1) by (intro refsOnce_update) simp_all
  have "map_of spec2 ''$schema'' = Some (JString (dialect E))"
    by (simp add: spec2_def update_conv')
  then have "map_of spec' ''$schema'' = Some (JString (dialect E))"
    unfolding spec'_def by (rule map_of_patched_schema)
  then have u1: "AList.update ''$schema'' (JString (dialect E)) spec' = spec'"
    by (rule update_triv)
  have "map_of spec' ''$id'' = Some (JString sid)"
    by (simp add: spec'_def map_of_patched_id spec2_def update_conv')
  then have u2: "AList.update ''$id'' (JString sid) spec' = spec'"
    by (rule update_triv)
  have "patched True (JObject spec') = JObject spec'"
    using patched_idem[OF r2, of True] by (simp only: patched_object spec'_def)
  then have "patchSchema E version relativePath spec' = Inr (JObject spec')"
    using sid by (simp add: patchSchema_def u1 u2 patchSchemaInPlace_def patch_eq del: patched.simps)
  then show ?thesis using d by simp
qed

theorem C4_patch_idempotent_witness:
  "refsOnce (JObject [(''$ref'', JString ''foo.spec.yml#/bar^baz''), (''additionalProperties'', JBool True),
                      (''items'', JArray [JObject [(''$id'', JString ''x'')]])])
   \<and> patchSchema exampleEnv ''3.4.1'' ''a.jsonschema.json''
        [(''$ref'', JString ''foo.spec.yml#/bar^baz''), (''additionalProperties'', JBool True),
         (''items'', JArray [JObject [(''$id'', JString ''x'')]])]
      = Inr (JObject [(''$ref'', JString ''foo.jsonschema.json#/bar%5Ebaz''),
                      (''items'', JArray [JObject []]),
                      (''$schema'', JString ''https://json-schema.org/draft/2020-12/schema''),
                      (''$id'', JString ''https://schemas.elastic.dev/package-spec/3.4.1/a.jsonschema.json'')])
   \<and> patchSchema exampleEnv ''3.4.1'' ''a.jsonschema.json''
        [(''$ref'', JString ''foo.jsonschema.json#/bar%5Ebaz''),
         (''items'', JArray [JObject []]),
         (''$schema'', JString ''https://json-schema.org/draft/2020-12/schema''),
         (''$id'', JString ''https://schemas.elastic.dev/package-spec/3.4.1/a.jsonschema.json'')]
      = Inr (JObject [(''$ref'', JString ''foo.jsonschema.json#/bar%5Ebaz''),
                      (''items'', JArray [JObject []]),
                      (''$schema'', JString ''https://json-schema.org/draft/2020-12/schema''),
                      (''$id'', JString ''https://schemas.elastic.dev/package-spec/3.4.1/a.jsonschema.json'')])"
proof -
  have h1: "refsOnce (JObject [(''$ref'', JString ''foo.spec.yml#/bar^baz''), (''additionalProperties'', JBool True),
                      (''items'', JArray [JObject [(''$id'', JString ''x'')]])])"
    by code_simp
  have h2: "patchSchema exampleEnv ''3.4.1'' ''a.jsonschema.json''
        [(''$ref'', JString ''foo.spec.yml#/bar^baz''), (''additionalProperties'', JBool True),
         (''items'', JArray [JObject [(''$id'', JString ''x'')]])]
      = Inr (JObject [(''$ref'', JString ''foo.jsonschema.json#/bar%5Ebaz''),
                      (''items'', JArray [JObject []]),
                      (''$schema'', JString ''https://json-schema.org/draft/2020-12/schema''),
                      (''$id'', JString ''https://schemas.elastic.dev/package-spec/3.4.1/a.jsonschema.json'')])"
    by code_simp
  from C4_patch_idempotent[OF h1 h2] h1 h2 show ?thesis by simp
qed

text \<open>
  C4, as stated, fails: a reference with two occurrences of \<open>.spec.yml\<close> has one of
  them replaced by each application.
\<close>

theorem C4_patch_twice_counterexample:
  "patchSchema exampleEnv ''3.4.1'' ''a.jsonschema.json'' [(''$ref'', JString ''b.spec.yml#/c.spec.yml'')]
     = Inr (JObject [(''$ref'', JString ''b.jsonschema.json#/c.spec.yml''),
                     (''$schema'', JString ''https://json-schema.org/draft/2020-12/schema''),
                     (''$id'', JString ''https://schemas.elastic.dev/package-spec/3.4.1/a.jsonschema.json'')])
   \<and> patchSchema exampleEnv ''3.4.1'' ''a.jsonschema.json''
         [(''$ref'', JString ''b.jsonschema.json#/c.spec.yml''),
          (''$schema'', JString ''https://json-schema.org/draft/2020-12/schema''),
          (''$id'', JString ''https://schemas.elastic.dev/package-spec/3.4.1/a.jsonschema.json'')]
     = Inr (JObject [(''$ref'', JString ''b.jsonschema.json#/c.jsonschema.json''),
                     (''$schema'', JString ''https://json-schema.org/draft/2020-12/schema''),
                     (''$id'', JString ''https://schemas.elastic.dev/package-spec/3.4.1/a.jsonschema.json'')])
   \<and> ''b.jsonschema.json#/c.spec.yml'' \<noteq> ''b.jsonschema.json#/c.jsonschema.json''"
  by code_simp


section \<open>The synthesized manifest\<close>

text \<open>
  C1. For the files \<open>input/manifest.jsonschema.json\<close> and
  \<open>integration/manifest.jsonschema.json\<close> the synthesized manifest has one \<open>allOf\<close>
  branch for \<open>input\<close> and one for \<open>integration\<close>, in this order, but the
  enumeration of its \<open>type\<close> property is not the list of the two names: it has one
  element, which is that list.
\<close>

theorem C1_enum_is_nested:
  "manifestSchema exampleEnv
     [''input/manifest.jsonschema.json'', ''integration/manifest.jsonschema.json''] ''3.4.1''
   = Inr (Schema ''https://json-schema.org/draft/2020-12/schema''
            ''https://schemas.elastic.dev/package-spec/3.4.1/manifest.jsonschema.json''
            ''Package Manifest'' ''Schema for package manifests.'' ''object''
            [''type'']
            [(''type'',
              Schema [] [] [] [] ''string'' [] []
                [JArray [JString ''input'', JString ''integration'']] None [] [] None None [])]
            [] None
            [(''input-manifest'',
              Schema [] [] [] [] [] [] [] [] None [] [] None None ''./input/manifest.jsonschema.json''),
             (''integration-manifest'',
              Schema [] [] [] [] [] [] [] [] None [] [] None None
                ''./integration/manifest.jsonschema.json'')]
            [Schema [] [] [] [] [] [] [] [] None [] []
               (Some (Schema [] [] [] [] [] []
                        [(''type'', Schema [] [] [] [] [] [] [] [] (Some (JString ''input'')) [] []
                                      None None [])]
                        [] None [] [] None None []))
               (Some (Schema [] [] [] [] [] [] [] [] None [] [] None None ''#/$defs/input-manifest''))
               [],
             Schema [] [] [] [] [] [] [] [] None [] []
               (Some (Schema [] [] [] [] [] []
                        [(''type'', Schema [] [] [] [] [] [] [] [] (Some (JString ''integration'')) [] []
                                      None None [])]
                        [] None [] [] None None []))
               (Some (Schema [] [] [] [] [] [] [] [] None [] [] None None
                        ''#/$defs/integration-manifest''))
               []]
            None None [])
   \<and> [JArray [JString ''input'', JString ''integration'']] \<noteq> [JString ''input'', JString ''integration'']"
  by code_simp

section \<open>The version listing\<close>

lemma LessThan_vkey:
  "PreRelease a = [] \<Longrightarrow> PreRelease b = [] \<Longrightarrow> LessThan a b \<longleftrightarrow> vkey a < vkey b"
  by (auto simp: LessThan_def Compare_def preReleaseCompare_def vkey_def parseInt64_def)

lemma insertBy_insort:
  assumes "\<And>y. y \<in> set xs \<Longrightarrow> lt y x \<longleftrightarrow> key y < key x"
  shows "insertBy lt x xs = insort_key key x xs"
  using assms by (induction xs) (auto simp: not_less)

lemma sortBy_sort_key:
  assumes "\<And>x y. x \<in> set xs \<Longrightarrow> y \<in> set xs \<Longrightarrow> lt y x \<longleftrightarrow> key y < key x"
  shows "sortBy lt xs = sort_key key xs"
  using assms
proof (induction xs)
  case Nil
  then show ?case by (simp add: sortBy_def)
next
  case (Cons x xs)
  have IH: "sortBy lt xs = sort_key key xs" using Cons by simp
  have "insertBy lt x (sort_key key xs) = insort_key key x (sort_key key xs)"
    by (rule insertBy_insort) (use Cons.prems in simp)
  then show ?case using IH by (simp add: sortBy_def)
qed

lemma splitOff_char:
  "splitOff s [c] =
     (if c \<in> set s then (takeWhile (\<lambda>x. x \<noteq> c) s, tl (dropWhile (\<lambda>x. x \<noteq> c) s)) else (s, []))"
  by (simp add: splitOff_def stringsCut_char)

lemma takeWhile_notin: "c \<notin> set s \<Longrightarrow> takeWhile (\<lambda>x. x \<noteq> c) s = s"
  by (induction s) auto

lemma splitOff_fst: "fst (splitOff s [c]) = takeWhile (\<lambda>x. x \<noteq> c) s"
  by (simp add: splitOff_char takeWhile_notin)

lemma takeWhile_twice: "takeWhile P (takeWhile Q xs) = takeWhile (\<lambda>x. Q x \<and> P x) xs"
  by (induction xs) auto

lemma core_split:
  "fst (splitOff (fst (splitOff s ''+'')) ''-'') = coreOf s"
  by (simp add: splitOff_fst takeWhile_twice coreOf_def)

lemma metadata_split: "snd (splitOff s ''+'') = metadataOf s"
  by (simp add: splitOff_char metadataOf_def)

lemma preRelease_split: "snd (splitOff (fst (splitOff s ''+'')) ''-'') = preReleaseOf s"
proof -
  have "(if CHR ''-'' \<in> set (takeWhile (\<lambda>x. x \<noteq> CHR ''+'') s)
         then tl (dropWhile (\<lambda>x. x \<noteq> CHR ''-'') (takeWhile (\<lambda>x. x \<noteq> CHR ''+'') s)) else [])
        = preReleaseOf s"
    by (induction s) (auto simp: preReleaseOf_def tailOf_def)
  then show ?thesis
    unfolding splitOff_fst[of s "CHR ''+''"] by (simp add: splitOff_char split: if_splits)
qed

lemma coreOf_chars: "CHR ''+'' \<notin> set (coreOf s)" "CHR ''-'' \<notin> set (coreOf s)"
proof -
  show "CHR ''+'' \<notin> set (coreOf s)"
  proof
    assume "CHR ''+'' \<in> set (coreOf s)"
    from set_takeWhileD[OF this[unfolded coreOf_def]] show False by simp
  qed
  show "CHR ''-'' \<notin> set (coreOf s)"
  proof
    assume "CHR ''-'' \<in> set (coreOf s)"
    from set_takeWhileD[OF this[unfolded coreOf_def]] show False by simp
  qed
qed

lemma splitOn_notin: "c \<notin> set s \<Longrightarrow> splitOn c s = [s]"
  by (induction s) auto

lemma splitOn_nonempty: "splitOn c s \<noteq> []"
  by (induction s) (auto split: list.splits)

lemma splitOn_in:
  "c \<in> set s \<Longrightarrow>
   splitOn c s = takeWhile (\<lambda>x. x \<noteq> c) s # splitOn c (tl (dropWhile (\<lambda>x. x \<noteq> c) s))"
proof (induction s)
  case Nil
  then show ?case by simp
next
  case (Cons a s)
  show ?case
  proof (cases "a = c")
    case True
    then show ?thesis by simp
  next
    case False
    then have "c \<in> set s" using Cons.prems by simp
    from Cons.IH[OF this] False show ?thesis by simp
  qed
qed

lemma splitOn_length_one: "length (splitOn c s) = 1 \<longleftrightarrow> c \<notin> set s"
proof
  assume l: "length (splitOn c s) = 1"
  show "c \<notin> set s"
  proof
    assume "c \<in> set s"
    from splitOn_in[OF this] l splitOn_nonempty[of c "tl (dropWhile (\<lambda>x. x \<noteq> c) s)"]
    show False by (cases "splitOn c (tl (dropWhile (\<lambda>x. x \<noteq> c) s))") simp_all
  qed
next
  assume "c \<notin> set s"
  then show "length (splitOn c s) = 1" by (simp add: splitOn_notin)
qed

lemma splitOn_parts_notin: "p \<in> set (splitOn c s) \<Longrightarrow> c \<notin> set p \<and> set p \<subseteq> set s"
proof (induction s arbitrary: p)
  case Nil
  then show ?case by simp
next
  case (Cons a s)
  show ?case
  proof (cases "a = c")
    case True
    then show ?thesis using Cons by auto
  next
    case False
    obtain x xs where x: "splitOn c s = x # xs"
      using splitOn_nonempty[of c s] by (cases "splitOn c s") auto
    then have "p = a # x \<or> p \<in> set xs" using Cons.prems False by simp
    then show ?thesis
    proof
      assume "p = a # x"
      moreover have "c \<notin> set x \<and> set x \<subseteq> set s" using Cons.IH[of x] x by simp
      ultimately show ?thesis using False by auto
    next
      assume "p \<in> set xs"
      then have "c \<notin> set p \<and> set p \<subseteq> set s" using Cons.IH[of p] x by simp
      then show ?thesis by auto
    qed
  qed
qed

lemma stringsSplitN3_dots:
  "stringsSplitN3 s ''.'' =
     (if CHR ''.'' \<notin> set s then [s]
      else let r = tl (dropWhile (\<lambda>x. x \<noteq> CHR ''.'') s)
           in takeWhile (\<lambda>x. x \<noteq> CHR ''.'') s
              # (if CHR ''.'' \<notin> set r then [r]
                 else [takeWhile (\<lambda>x. x \<noteq> CHR ''.'') r, tl (dropWhile (\<lambda>x. x \<noteq> CHR ''.'') r)]))"
  by (simp add: stringsSplitN3_def stringsSplitN2_def stringsCut_char Let_def)

lemma digit_chars:
  "isDigit c \<Longrightarrow> c \<noteq> CHR ''.'' \<and> c \<noteq> CHR ''+'' \<and> c \<noteq> CHR ''-''"
  unfolding isDigit_def by (auto simp: less_eq_char_def)

lemma digits_no_dot: "list_all isDigit d \<Longrightarrow> CHR ''.'' \<notin> set d"
  using digit_chars by (auto simp: list_all_iff)

lemma parseInt64_plain:
  assumes "CHR ''+'' \<notin> set d" "CHR ''-'' \<notin> set d"
  shows "parseInt64 d = (if decimalNumber d then Some (int (digitsValue d)) else None)"
proof -
  have "\<not> prefix ''+'' d" "\<not> prefix ''-'' d" using assms by (auto simp: prefix_def)
  then show ?thesis by (auto simp: parseInt64_def decimalNumber_def Let_def)
qed

lemma parseInt64_digits: "parseInt64 d = Some n \<Longrightarrow> CHR ''+'' \<notin> set d \<Longrightarrow> CHR ''-'' \<notin> set d \<Longrightarrow>
   list_all isDigit d"
  by (simp add: parseInt64_plain decimalNumber_def split: if_splits)

lemma set_takeWhile_sub: "set (takeWhile P xs) \<subseteq> set xs"
  by (induction xs) auto

lemma set_tl_dropWhile: "set (tl (dropWhile P xs)) \<subseteq> set xs"
  by (induction xs) auto

text \<open>
  The three numbers of the dotted part, as the library reads them and as the text has
  them.
\<close>

lemma tri_parse:
  assumes core: "CHR ''+'' \<notin> set core" "CHR ''-'' \<notin> set core"
  shows "(length (stringsSplitN3 core ''.'') = 3
          \<and> parseInt64 (stringsSplitN3 core ''.'' ! 0) = Some x
          \<and> parseInt64 (stringsSplitN3 core ''.'' ! 1) = Some y
          \<and> parseInt64 (stringsSplitN3 core ''.'' ! 2) = Some z)
         \<longleftrightarrow> (length (splitOn CHR ''.'' core) = 3
              \<and> list_all decimalNumber (splitOn CHR ''.'' core)
              \<and> map (\<lambda>d. int (digitsValue d)) (splitOn CHR ''.'' core) = [x, y, z])"
proof (cases "CHR ''.'' \<in> set core")
  case False
  then show ?thesis by (simp add: stringsSplitN3_dots splitOn_notin)
next
  case d1: True
  define a where "a = takeWhile (\<lambda>x. x \<noteq> CHR ''.'') core"
  define r where "r = tl (dropWhile (\<lambda>x. x \<noteq> CHR ''.'') core)"
  have s1: "splitOn CHR ''.'' core = a # splitOn CHR ''.'' r"
    using splitOn_in[OF d1] by (simp add: a_def r_def)
  show ?thesis
  proof (cases "CHR ''.'' \<in> set r")
    case False
    then show ?thesis using d1
      by (simp add: stringsSplitN3_dots splitOn_notin s1 r_def[symmetric] Let_def)
  next
    case d2: True
    define b where "b = takeWhile (\<lambda>x. x \<noteq> CHR ''.'') r"
    define c where "c = tl (dropWhile (\<lambda>x. x \<noteq> CHR ''.'') r)"
    have s2: "splitOn CHR ''.'' r = b # splitOn CHR ''.'' c"
      using splitOn_in[OF d2] by (simp add: b_def c_def)
    have n3: "stringsSplitN3 core ''.'' = [a, b, c]"
      using d1 d2 by (simp add: stringsSplitN3_dots Let_def a_def r_def[symmetric] b_def c_def)
    have sub: "set a \<subseteq> set core" "set b \<subseteq> set core" "set c \<subseteq> set core"
    proof -
      show "set a \<subseteq> set core" unfolding a_def by (rule set_takeWhile_sub)
      have rc: "set r \<subseteq> set core" unfolding r_def by (rule set_tl_dropWhile)
      have "set b \<subseteq> set r" unfolding b_def by (rule set_takeWhile_sub)
      then show "set b \<subseteq> set core" using rc by (rule subset_trans)
      have "set c \<subseteq> set r" unfolding c_def by (rule set_tl_dropWhile)
      then show "set c \<subseteq> set core" using rc by (rule subset_trans)
    qed
    have ns: "CHR ''+'' \<notin> set a" "CHR ''-'' \<notin> set a" "CHR ''+'' \<notin> set b" "CHR ''-'' \<notin> set b"
      "CHR ''+'' \<notin> set c" "CHR ''-'' \<notin> set c"
      using core sub by auto
    note p = parseInt64_plain[OF ns(1,2)] parseInt64_plain[OF ns(3,4)] parseInt64_plain[OF ns(5,6)]
    show ?thesis
    proof (cases "CHR ''.'' \<in> set c")
      case True
      then have "\<not> list_all isDigit c" using digits_no_dot by blast
      then have "\<not> decimalNumber c" by (simp add: decimalNumber_def)
      moreover have "length (splitOn CHR ''.'' c) \<noteq> 1"
        using True splitOn_length_one[of "CHR ''.''" c] by blast
      ultimately show ?thesis by (simp add: n3 p s1 s2)
    next
      case False
      then have "splitOn CHR ''.'' c = [c]" by (rule splitOn_notin)
      then show ?thesis by (auto simp: n3 p s1 s2)
    qed
  qed
qed

lemma semverNewVersion_parts:
  "semverNewVersion s =
     (let dotParts = stringsSplitN3 (coreOf s) ''.''
      in if length dotParts \<noteq> 3 then Inl (Errorf ''%s is not in dotted-tri format'' [coreOf s] None)
         else if \<not> validateIdentifier (preReleaseOf s) then
           Inl (Errorf ''failed to validate pre-release: %v'' [preReleaseOf s] None)
         else if \<not> validateIdentifier (metadataOf s) then
           Inl (Errorf ''failed to validate metadata: %v'' [metadataOf s] None)
         else
           (case parseInt64 (dotParts ! 0) of
              None \<Rightarrow> Inl (External ''strconv.ParseInt'')
            | Some major \<Rightarrow>
                (case parseInt64 (dotParts ! 1) of
                   None \<Rightarrow> Inl (External ''strconv.ParseInt'')
                 | Some minor \<Rightarrow>
                     (case parseInt64 (dotParts ! 2) of
                        None \<Rightarrow> Inl (External ''strconv.ParseInt'')
                      | Some patch \<Rightarrow>
                          Inr \<lparr> Major = major, Minor = minor, Patch = patch,
                                PreRelease = preReleaseOf s, Metadata = metadataOf s \<rparr>))))"
proof -
  obtain rest1 metadata where a: "splitOff s ''+'' = (rest1, metadata)"
    by (cases "splitOff s ''+''")
  obtain rest2 preRelease where b: "splitOff rest1 ''-'' = (rest2, preRelease)"
    by (cases "splitOff rest1 ''-''")
  have m: "metadata = metadataOf s" using metadata_split[of s] a by simp
  have p: "preRelease = preReleaseOf s" using preRelease_split[of s] a b by simp
  have c: "rest2 = coreOf s" using core_split[of s] a b by simp
  show ?thesis unfolding semverNewVersion_def a
    by (simp only: prod.case Let_def b m[symmetric] p[symmetric] c[symmetric])
qed

lemma newVersion_release:
  "(\<exists>v. semverNewVersion s = Inr v \<and> PreRelease v = [])
   \<longleftrightarrow> length (splitOn CHR ''.'' (coreOf s)) = 3
       \<and> list_all decimalNumber (splitOn CHR ''.'' (coreOf s))
       \<and> preReleaseOf s = []
       \<and> dotIdentifiers (metadataOf s)"
proof
  assume "\<exists>v. semverNewVersion s = Inr v \<and> PreRelease v = []"
  then obtain v where v: "semverNewVersion s = Inr v" "PreRelease v = []" by blast
  from v(1) obtain x y z where
    l: "length (stringsSplitN3 (coreOf s) ''.'') = 3"
    and i: "validateIdentifier (metadataOf s)"
    and pa: "parseInt64 (stringsSplitN3 (coreOf s) ''.'' ! 0) = Some x"
            "parseInt64 (stringsSplitN3 (coreOf s) ''.'' ! 1) = Some y"
            "parseInt64 (stringsSplitN3 (coreOf s) ''.'' ! 2) = Some z"
    and ve: "v = \<lparr> Major = x, Minor = y, Patch = z,
                   PreRelease = preReleaseOf s, Metadata = metadataOf s \<rparr>"
    unfolding semverNewVersion_parts Let_def
    by (auto split: if_splits option.splits)
  from tri_parse[OF coreOf_chars, of s x y z] l pa
  have "length (splitOn CHR ''.'' (coreOf s)) = 3 \<and> list_all decimalNumber (splitOn CHR ''.'' (coreOf s))"
    by blast
  moreover have "preReleaseOf s = []" using v(2) ve by simp
  moreover have "dotIdentifiers (metadataOf s)" using i by (simp add: dotIdentifiers_def validateIdentifier_def)
  ultimately show "length (splitOn CHR ''.'' (coreOf s)) = 3
       \<and> list_all decimalNumber (splitOn CHR ''.'' (coreOf s))
       \<and> preReleaseOf s = []
       \<and> dotIdentifiers (metadataOf s)" by blast
next
  assume a: "length (splitOn CHR ''.'' (coreOf s)) = 3
       \<and> list_all decimalNumber (splitOn CHR ''.'' (coreOf s))
       \<and> preReleaseOf s = []
       \<and> dotIdentifiers (metadataOf s)"
  then obtain d1 d2 d3 where d: "splitOn CHR ''.'' (coreOf s) = [d1, d2, d3]"
    by (auto simp: length_Suc_conv numeral_3_eq_3)
  have "map (\<lambda>d. int (digitsValue d)) (splitOn CHR ''.'' (coreOf s))
        = [int (digitsValue d1), int (digitsValue d2), int (digitsValue d3)]"
    by (simp add: d)
  with tri_parse[OF coreOf_chars, of s "int (digitsValue d1)" "int (digitsValue d2)" "int (digitsValue d3)"] a
  have l: "length (stringsSplitN3 (coreOf s) ''.'') = 3"
    and pa: "parseInt64 (stringsSplitN3 (coreOf s) ''.'' ! 0) = Some (int (digitsValue d1))"
            "parseInt64 (stringsSplitN3 (coreOf s) ''.'' ! 1) = Some (int (digitsValue d2))"
            "parseInt64 (stringsSplitN3 (coreOf s) ''.'' ! 2) = Some (int (digitsValue d3))"
    by blast+
  have i: "validateIdentifier (metadataOf s)" "validateIdentifier (preReleaseOf s)"
    using a by (simp_all add: dotIdentifiers_def validateIdentifier_def)
  have "semverNewVersion s
        = Inr \<lparr> Major = int (digitsValue d1), Minor = int (digitsValue d2), Patch = int (digitsValue d3),
                PreRelease = preReleaseOf s, Metadata = metadataOf s \<rparr>"
    unfolding semverNewVersion_parts Let_def using l pa i by simp
  then show "\<exists>v. semverNewVersion s = Inr v \<and> PreRelease v = []" using a by simp
qed

lemma newVersion_numbers:
  assumes "semverNewVersion s = Inr v"
  shows "map (\<lambda>d. int (digitsValue d)) (splitOn CHR ''.'' (coreOf s)) = [Major v, Minor v, Patch v]"
proof -
  from assms obtain x y z where
    l: "length (stringsSplitN3 (coreOf s) ''.'') = 3"
    and pa: "parseInt64 (stringsSplitN3 (coreOf s) ''.'' ! 0) = Some x"
            "parseInt64 (stringsSplitN3 (coreOf s) ''.'' ! 1) = Some y"
            "parseInt64 (stringsSplitN3 (coreOf s) ''.'' ! 2) = Some z"
    and ve: "v = \<lparr> Major = x, Minor = y, Patch = z,
                   PreRelease = preReleaseOf s, Metadata = metadataOf s \<rparr>"
    unfolding semverNewVersion_parts Let_def
    by (auto split: if_splits option.splits)
  from tri_parse[OF coreOf_chars, of s x y z] l pa ve show ?thesis by simp
qed

lemma keptTag_releaseName: "keptTag r \<longleftrightarrow> releaseName (refShort (refName r))"
proof (cases "prefix ''v'' (refShort (refName r))")
  case False
  then show ?thesis by (simp add: keptTag_def tagToSemver_def releaseName_def)
next
  case True
  then obtain s where s: "refShort (refName r) = CHR ''v'' # s" by (auto simp: prefix_def)
  have "keptTag r \<longleftrightarrow> (\<exists>v. semverNewVersion s = Inr v \<and> PreRelease v = [])"
    by (auto simp: keptTag_def tagToSemver_def s stringsTrimPrefix_def split: sum.splits)
  then show ?thesis by (simp add: newVersion_release releaseName_def s)
qed

lemma tagKey_numbers:
  assumes "tagToSemver r = Some v"
  shows "map int (tagNumbers r) = [Major v, Minor v, Patch v]"
proof -
  from assms obtain s where s: "refShort (refName r) = CHR ''v'' # s" "semverNewVersion s = Inr v"
    by (auto simp: tagToSemver_def stringsTrimPrefix_def prefix_def Let_def split: if_splits sum.splits)
  have "map int (tagNumbers r) = map (\<lambda>d. int (digitsValue d)) (splitOn CHR ''.'' (coreOf s))"
    by (simp add: tagNumbers_def nameNumbers_def s(1))
  then show ?thesis using newVersion_numbers[OF s(2)] by simp
qed

lemma numbers_le:
  assumes "map int xs = [a, b, c]" "map int ys = [a', b', c']" "(a, b, c) \<le> (a', b', c')"
  shows "xs \<le> ys"
proof -
  from assms(1) obtain x1 x2 x3 where x: "xs = [x1, x2, x3]" "a = int x1" "b = int x2" "c = int x3"
    by (auto simp: map_eq_Cons_conv)
  from assms(2) obtain y1 y2 y3 where y: "ys = [y1, y2, y3]" "a' = int y1" "b' = int y2" "c' = int y3"
    by (auto simp: map_eq_Cons_conv)
  show ?thesis using assms(3) unfolding x y by (auto simp: less_eq_prod_def)
qed


lemma versionToRefOf_snd: "map snd (versionToRefOf tags) = filter keptTag tags"
  by (induction tags) (auto simp: versionToRefOf_def keptTag_def split: option.splits)

lemma versionToRefOf_mem:
  "p \<in> set (versionToRefOf tags) \<Longrightarrow> tagToSemver (snd p) = Some (fst p) \<and> PreRelease (fst p) = []"
  by (auto simp: versionToRefOf_def split: option.splits if_splits)

lemma GetReleaseTags_eq:
  assumes "repoTags g = Inr tags" "tagsIterErr g = None"
  shows "GetReleaseTags order g
         = Inr (map snd (sortBy (\<lambda>a b. LessThan (fst a) (fst b)) (order (versionToRefOf tags))))"
  using assms by (simp add: GetReleaseTags_def versionToRefOf_def)

lemma release_sorted:
  assumes perm: "mset ys = mset (versionToRefOf tags)"
  defines "out \<equiv> map snd (sortBy (\<lambda>a b. LessThan (fst a) (fst b)) ys)"
  shows "mset out = mset (filter keptTag tags)"
    and "sorted (map tagKey out)"
    and "sorted (map tagNumbers out)"
proof -
  have mem: "tagToSemver (snd p) = Some (fst p) \<and> PreRelease (fst p) = []" if "p \<in> set ys" for p
    using that perm versionToRefOf_mem by (metis mset_eq_setD)
  have s: "sortBy (\<lambda>a b. LessThan (fst a) (fst b)) ys = sort_key (\<lambda>p. vkey (fst p)) ys"
    by (rule sortBy_sort_key) (use mem LessThan_vkey in blast)
  have "mset out = image_mset snd (mset ys)"
    by (simp add: out_def s)
  also have "\<dots> = mset (map snd (versionToRefOf tags))" by (simp add: perm)
  finally show "mset out = mset (filter keptTag tags)" by (simp add: versionToRefOf_snd)
  have k: "tagKey (snd p) = vkey (fst p)" if "p \<in> set ys" for p
    using mem[OF that] by (simp add: tagKey_def)
  have "map tagKey out = map (\<lambda>p. vkey (fst p)) (sort_key (\<lambda>p. vkey (fst p)) ys)"
    using k by (simp add: out_def s)
  then show sk: "sorted (map tagKey out)" by simp
  have le: "tagNumbers r \<le> tagNumbers t" if "r \<in> set out" "t \<in> set out" "tagKey r \<le> tagKey t" for r t
  proof -
    from that(1) obtain p where p: "p \<in> set ys" "r = snd p" by (auto simp: out_def s)
    from that(2) obtain q where q: "q \<in> set ys" "t = snd q" by (auto simp: out_def s)
    have sp: "tagToSemver r = Some (fst p)" using mem[OF p(1)] p(2) by simp
    have sq: "tagToSemver t = Some (fst q)" using mem[OF q(1)] q(2) by simp
    have "(Major (fst p), Minor (fst p), Patch (fst p)) \<le> (Major (fst q), Minor (fst q), Patch (fst q))"
      using that(3) sp sq by (simp add: tagKey_def vkey_def)
    then show ?thesis by (rule numbers_le[OF tagKey_numbers[OF sp] tagKey_numbers[OF sq]])
  qed
  have "sorted_wrt (\<lambda>x y. tagKey x \<le> tagKey y) out"
    using sk by (simp add: sorted_map)
  then have "sorted_wrt (\<lambda>x y. tagNumbers x \<le> tagNumbers y) out"
    by (rule sorted_wrt_mono_rel[rotated]) (rule le)
  then show "sorted (map tagNumbers out)" by (simp add: sorted_map)
qed

lemma tagToSemver_name:
  "refName r = n \<Longrightarrow> tagToSemver r = tagToSemver \<lparr> refName = n, refHash = [] \<rparr>"
  by (simp add: tagToSemver_def)

lemma example_semvers:
  "tagToSemver \<lparr> refName = ''refs/tags/v1.2.0'', refHash = [] \<rparr>
     = Some \<lparr> Major = 1, Minor = 2, Patch = 0, PreRelease = [], Metadata = [] \<rparr>"
  "tagToSemver \<lparr> refName = ''refs/tags/v1.10.0'', refHash = [] \<rparr>
     = Some \<lparr> Major = 1, Minor = 10, Patch = 0, PreRelease = [], Metadata = [] \<rparr>"
  "tagToSemver \<lparr> refName = ''refs/tags/v2.0.0-beta1'', refHash = [] \<rparr>
     = Some \<lparr> Major = 2, Minor = 0, Patch = 0, PreRelease = ''beta1'', Metadata = [] \<rparr>"
  "tagToSemver \<lparr> refName = ''refs/tags/v1.3.0'', refHash = [] \<rparr>
     = Some \<lparr> Major = 1, Minor = 3, Patch = 0, PreRelease = [], Metadata = [] \<rparr>"
  by code_simp+

lemma example_sorted_keys:
  "sort [(1, 2, 0), (1, 10, 0), (1, 3, 0 :: int)] = [(1 :: int, 2 :: int, 0), (1, 3, 0), (1, 10, 0)]"
  by simp

lemma example_order:
  assumes names: "map refName tags
                  = [''refs/tags/v1.2.0'', ''refs/tags/v1.10.0'', ''refs/tags/v2.0.0-beta1'',
                     ''refs/tags/v1.3.0'']"
    and perm: "mset out = mset (filter keptTag tags)"
    and srt: "sorted (map tagKey out)"
  shows "map refName out = [''refs/tags/v1.2.0'', ''refs/tags/v1.3.0'', ''refs/tags/v1.10.0'']"
proof -
  from names obtain t1 t2 t3 t4 where tags: "tags = [t1, t2, t3, t4]"
    and n: "refName t1 = ''refs/tags/v1.2.0''" "refName t2 = ''refs/tags/v1.10.0''"
           "refName t3 = ''refs/tags/v2.0.0-beta1''" "refName t4 = ''refs/tags/v1.3.0''"
    by (auto simp: map_eq_Cons_conv)
  have sv: "tagToSemver t1 = Some \<lparr> Major = 1, Minor = 2, Patch = 0, PreRelease = [], Metadata = [] \<rparr>"
    "tagToSemver t2 = Some \<lparr> Major = 1, Minor = 10, Patch = 0, PreRelease = [], Metadata = [] \<rparr>"
    "tagToSemver t3 = Some \<lparr> Major = 2, Minor = 0, Patch = 0, PreRelease = ''beta1'', Metadata = [] \<rparr>"
    "tagToSemver t4 = Some \<lparr> Major = 1, Minor = 3, Patch = 0, PreRelease = [], Metadata = [] \<rparr>"
    using tagToSemver_name[OF n(1)] tagToSemver_name[OF n(2)] tagToSemver_name[OF n(3)]
      tagToSemver_name[OF n(4)]
    by (simp_all only: example_semvers)
  have f: "filter keptTag tags = [t1, t2, t4]"
    by (simp add: tags keptTag_def sv)
  have k: "tagKey t1 = (1, 2, 0)" "tagKey t2 = (1, 10, 0)" "tagKey t4 = (1, 3, 0)"
    by (simp_all add: tagKey_def vkey_def sv)
  have "mset (map tagKey out) = image_mset tagKey (mset [t1, t2, t4])"
    using perm f by simp
  then have "mset (map tagKey out) = mset [(1, 2, 0), (1, 10, 0), (1, 3, 0)]"
    using k by simp
  from properties_for_sort[OF this srt]
  have ks: "map tagKey out = [(1, 2, 0), (1, 3, 0), (1, 10, 0)]"
    by (simp only: example_sorted_keys)
  then obtain o1 o2 o3 where out: "out = [o1, o2, o3]"
    and ko: "tagKey o1 = (1, 2, 0)" "tagKey o2 = (1, 3, 0)" "tagKey o3 = (1, 10, 0)"
    by (auto simp: map_eq_Cons_conv)
  have "set_mset (mset out) = set_mset (mset [t1, t2, t4])" using perm f by simp
  then have so: "set out = {t1, t2, t4}" by simp
  have d: "(1 :: int, 2 :: int, 0 :: int) \<noteq> (1, 3, 0)" "(1 :: int, 2 :: int, 0 :: int) \<noteq> (1, 10, 0)"
    "(1 :: int, 3 :: int, 0 :: int) \<noteq> (1, 10, 0)"
    by simp_all
  have mem: "o1 \<in> set out" "o2 \<in> set out" "o3 \<in> set out" by (simp_all add: out)
  have "o1 \<in> {t1, t2, t4}" using mem(1) by (simp only: so)
  then have o1: "o1 = t1" using ko(1) k d by (elim insertE emptyE) simp_all
  have "o2 \<in> {t1, t2, t4}" using mem(2) by (simp only: so)
  then have o2: "o2 = t4" using ko(2) k d by (elim insertE emptyE) simp_all
  have "o3 \<in> {t1, t2, t4}" using mem(3) by (simp only: so)
  then have o3: "o3 = t2" using ko(3) k d by (elim insertE emptyE) simp_all
  show ?thesis by (simp only: out o1 o2 o3 n list.map)
qed

text \<open>
  Every name that the claim keeps, with numbers below \<open>2^63\<close>, is a name that the
  program keeps.
\<close>

lemma claimed_release_kept:
  assumes c: "claimedReleaseName t"
    and r: "list_all (\<lambda>d. int (digitsValue d) < 2 ^ 63) (splitOn CHR ''.'' (coreOf (tl t)))"
  shows "releaseName t"
proof -
  let ?s = "tl t"
  have sv: "semanticVersion ?s" and v: "prefix ''v'' t" and np: "\<not> prefix ''-'' (tailOf ?s)"
    using c by (simp_all add: claimedReleaseName_def)
  have l: "length (splitOn CHR ''.'' (coreOf ?s)) = 3"
    and n: "list_all numericIdentifier (splitOn CHR ''.'' (coreOf ?s))"
    using sv by (simp_all add: semanticVersion_def)
  have d: "list_all decimalNumber (splitOn CHR ''.'' (coreOf ?s))"
    using n r by (auto simp: list_all_iff decimalNumber_def numericIdentifier_def)
  have p: "preReleaseOf ?s = []"
    using np by (cases "tailOf ?s") (auto simp: preReleaseOf_def)
  have m: "dotIdentifiers (metadataOf ?s)"
  proof (cases "CHR ''+'' \<in> set ?s")
    case True
    then have "buildIdentifiers (metadataOf ?s)" using sv by (simp add: semanticVersion_def)
    then show ?thesis by (simp add: dotIdentifiers_def buildIdentifiers_def)
  next
    case False
    then show ?thesis by (simp add: metadataOf_def dotIdentifiers_def)
  qed
  show ?thesis unfolding releaseName_def using v l d p m by simp
qed

text \<open>
  C5, as amended. When the tags can be listed, whatever the order in which Go hands out
  the keys of the map, \<open>GetReleaseTags\<close> returns exactly the tags whose short name is
  \<open>v\<close>, three decimal numbers below \<open>2^63\<close> separated by dots (with or without leading
  zeros), optionally a \<open>-\<close> with an empty pre-release, and optionally \<open>+\<close> with build
  metadata that is empty or made of identifiers; each as often as it is listed, in
  ascending order of the three numbers, compared as numbers. Among them is every tag
  whose name is \<open>v\<close> and a semantic version without pre-release and with numbers below
  \<open>2^63\<close>. For the tags \<open>v1.2.0\<close>, \<open>v1.10.0\<close>, \<open>v2.0.0-beta1\<close> and \<open>v1.3.0\<close> the
  result is \<open>v1.2.0\<close>, \<open>v1.3.0\<close>, \<open>v1.10.0\<close>.
\<close>

theorem C5_release_tags_sorted:
  assumes "\<forall>xs. mset (mapKeysOrder xs) = mset xs"
    and "repoTags g = Inr tags" and "tagsIterErr g = None"
  shows "\<exists>out. GetReleaseTags mapKeysOrder g = Inr out
           \<and> mset out = mset (filter (\<lambda>r. releaseName (refShort (refName r))) tags)
           \<and> sorted (map tagNumbers out)
           \<and> (\<forall>r \<in> set tags.
                 claimedReleaseName (refShort (refName r))
                 \<and> list_all (\<lambda>d. int (digitsValue d) < 2 ^ 63)
                      (splitOn CHR ''.'' (coreOf (tl (refShort (refName r)))))
                 \<longrightarrow> r \<in> set out)
           \<and> (map refName tags
                = [''refs/tags/v1.2.0'', ''refs/tags/v1.10.0'', ''refs/tags/v2.0.0-beta1'',
                   ''refs/tags/v1.3.0'']
              \<longrightarrow> map refName out
                  = [''refs/tags/v1.2.0'', ''refs/tags/v1.3.0'', ''refs/tags/v1.10.0''])"
proof -
  define out where
    "out = map snd (sortBy (\<lambda>a b. LessThan (fst a) (fst b)) (mapKeysOrder (versionToRefOf tags)))"
  have perm: "mset (mapKeysOrder (versionToRefOf tags)) = mset (versionToRefOf tags)"
    using assms(1) by blast
  note r = release_sorted[OF perm, folded out_def]
  have g: "GetReleaseTags mapKeysOrder g = Inr out"
    using GetReleaseTags_eq[OF assms(2,3)] by (simp add: out_def)
  have f: "filter keptTag tags = filter (\<lambda>r. releaseName (refShort (refName r))) tags"
    by (rule filter_cong) (simp_all add: keptTag_releaseName)
  have m: "mset out = mset (filter (\<lambda>r. releaseName (refShort (refName r))) tags)"
    using r(1) by (simp only: f)
  have c: "t \<in> set out"
    if "t \<in> set tags" "claimedReleaseName (refShort (refName t))"
       "list_all (\<lambda>d. int (digitsValue d) < 2 ^ 63)
          (splitOn CHR ''.'' (coreOf (tl (refShort (refName t)))))" for t
  proof -
    have "releaseName (refShort (refName t))" using that(2,3) by (rule claimed_release_kept)
    then have "t \<in> set (filter (\<lambda>r. releaseName (refShort (refName r))) tags)"
      using that(1) by simp
    then have "t \<in># mset out" by (simp only: m set_mset_mset)
    then show ?thesis by simp
  qed
  show ?thesis
  proof (intro exI conjI)
    show "GetReleaseTags mapKeysOrder g = Inr out" by (rule g)
    show "mset out = mset (filter (\<lambda>r. releaseName (refShort (refName r))) tags)" by (rule m)
    show "sorted (map tagNumbers out)" by (rule r(3))
    show "\<forall>r \<in> set tags.
                 claimedReleaseName (refShort (refName r))
                 \<and> list_all (\<lambda>d. int (digitsValue d) < 2 ^ 63)
                      (splitOn CHR ''.'' (coreOf (tl (refShort (refName r)))))
                 \<longrightarrow> r \<in> set out"
      using c by blast
    show "map refName tags
                = [''refs/tags/v1.2.0'', ''refs/tags/v1.10.0'', ''refs/tags/v2.0.0-beta1'',
                   ''refs/tags/v1.3.0'']
              \<longrightarrow> map refName out
                  = [''refs/tags/v1.2.0'', ''refs/tags/v1.3.0'', ''refs/tags/v1.10.0'']"
    proof (rule impI)
      assume "map refName tags
                = [''refs/tags/v1.2.0'', ''refs/tags/v1.10.0'', ''refs/tags/v2.0.0-beta1'',
                   ''refs/tags/v1.3.0'']"
      then show "map refName out
                  = [''refs/tags/v1.2.0'', ''refs/tags/v1.3.0'', ''refs/tags/v1.10.0'']"
        using r(1) r(2) by (rule example_order)
    qed
  qed
qed

theorem C5_release_tags_sorted_witness:
  "(\<forall>xs :: (version \<times> reference) list. mset (rev xs) = mset xs)
   \<and> (\<exists>out. GetReleaseTags rev exampleRepo = Inr out
          \<and> map refName out = [''refs/tags/v1.2.0'', ''refs/tags/v1.3.0'', ''refs/tags/v1.10.0''])"
proof -
  have h: "\<forall>xs :: (version \<times> reference) list. mset (rev xs) = mset xs" by simp
  have t: "repoTags exampleRepo
           = Inr [\<lparr> refName = ''refs/tags/v1.2.0'', refHash = replicate 40 CHR ''1'' \<rparr>,
                  \<lparr> refName = ''refs/tags/v1.10.0'', refHash = replicate 40 CHR ''2'' \<rparr>,
                  \<lparr> refName = ''refs/tags/v2.0.0-beta1'', refHash = replicate 40 CHR ''3'' \<rparr>,
                  \<lparr> refName = ''refs/tags/v1.3.0'', refHash = replicate 40 CHR ''4'' \<rparr>]"
    by (simp add: exampleRepo_def)
  have i: "tagsIterErr exampleRepo = None" by (simp add: exampleRepo_def)
  have m: "map refName
             [\<lparr> refName = ''refs/tags/v1.2.0'', refHash = replicate 40 CHR ''1'' \<rparr>,
              \<lparr> refName = ''refs/tags/v1.10.0'', refHash = replicate 40 CHR ''2'' \<rparr>,
              \<lparr> refName = ''refs/tags/v2.0.0-beta1'', refHash = replicate 40 CHR ''3'' \<rparr>,
              \<lparr> refName = ''refs/tags/v1.3.0'', refHash = replicate 40 CHR ''4'' \<rparr>]
           = [''refs/tags/v1.2.0'', ''refs/tags/v1.10.0'', ''refs/tags/v2.0.0-beta1'',
              ''refs/tags/v1.3.0'']"
    by (simp only: list.map reference.simps)
  from C5_release_tags_sorted[OF h t i] show ?thesis
  proof (elim exE conjE)
    fix out
    assume o: "GetReleaseTags rev exampleRepo = Inr out"
      and e: "map refName
             [\<lparr> refName = ''refs/tags/v1.2.0'', refHash = replicate 40 CHR ''1'' \<rparr>,
              \<lparr> refName = ''refs/tags/v1.10.0'', refHash = replicate 40 CHR ''2'' \<rparr>,
              \<lparr> refName = ''refs/tags/v2.0.0-beta1'', refHash = replicate 40 CHR ''3'' \<rparr>,
              \<lparr> refName = ''refs/tags/v1.3.0'', refHash = replicate 40 CHR ''4'' \<rparr>]
           = [''refs/tags/v1.2.0'', ''refs/tags/v1.10.0'', ''refs/tags/v2.0.0-beta1'',
              ''refs/tags/v1.3.0'']
           \<longrightarrow> map refName out
               = [''refs/tags/v1.2.0'', ''refs/tags/v1.3.0'', ''refs/tags/v1.10.0'']"
    from e m have r: "map refName out = [''refs/tags/v1.2.0'', ''refs/tags/v1.3.0'', ''refs/tags/v1.10.0'']"
      by (rule mp)
    show ?thesis
      by (rule conjI, rule h, rule exI[of _ out], rule conjI, rule o, rule r)
  qed
qed

text \<open>
  C5, as stated, fails: \<open>01.2.3\<close> is not a semantic version (its first number has a
  leading zero), and neither is \<open>1.2.3-\<close> (a \<open>-\<close> and no pre-release after it), but
  the listing keeps the tags \<open>v01.2.3\<close> and \<open>v1.2.4-\<close>, beside \<open>v0.9.0+build\<close>,
  which the claim keeps too.
\<close>

theorem C5_not_semver_counterexample:
  "GetReleaseTags id
     \<lparr> openErr = None,
       resolveRevision = resolveRevision exampleRepo,
       references = Inr [],
       referencesIterErr = None,
       repoTags =
         Inr [\<lparr> refName = ''refs/tags/v1.2.4-'', refHash = replicate 40 CHR ''1'' \<rparr>,
              \<lparr> refName = ''refs/tags/v01.2.3'', refHash = replicate 40 CHR ''2'' \<rparr>,
              \<lparr> refName = ''refs/tags/v0.9.0+build'', refHash = replicate 40 CHR ''3'' \<rparr>],
       tagsIterErr = None,
       checkoutErr = checkoutErr exampleRepo,
       worktreeOf = worktreeOf exampleRepo \<rparr>
   = Inr [\<lparr> refName = ''refs/tags/v0.9.0+build'', refHash = replicate 40 CHR ''3'' \<rparr>,
          \<lparr> refName = ''refs/tags/v01.2.3'', refHash = replicate 40 CHR ''2'' \<rparr>,
          \<lparr> refName = ''refs/tags/v1.2.4-'', refHash = replicate 40 CHR ''1'' \<rparr>]
   \<and> \<not> semanticVersion ''01.2.3''
   \<and> \<not> claimedReleaseName ''v01.2.3''
   \<and> \<not> semanticVersion ''1.2.4-''
   \<and> \<not> claimedReleaseName ''v1.2.4-''
   \<and> claimedReleaseName ''v0.9.0+build''"
  by code_simp


section \<open>An explicit reference\<close>

lemma NewReferenceFromStrings_name: "refName (NewReferenceFromStrings name target) = name"
  by (simp add: NewReferenceFromStrings_def)

text \<open>
  C6, as amended. For a reference given with \<open>-git-ref\<close> that resolves, \<open>run\<close> works on
  exactly one reference, whose name is the text given. The version that names its output
  directory is that text when its short name is not \<open>v\<close> and a semantic version;
  otherwise it is the text of the parsed version, without the \<open>v\<close>.
\<close>

theorem C6_explicit_reference:
  assumes "gitRef E \<noteq> []" and "ResolveReference git (gitRef E) = Inr hash"
  shows "\<exists>r. runGitRefs E mapKeysOrder git = Inr [r]
           \<and> refName r = gitRef E
           \<and> versionOf r = (case tagToSemver r of None \<Rightarrow> gitRef E | Some v \<Rightarrow> versionString v)
           \<and> (\<not> prefix ''v'' (refShort (gitRef E)) \<longrightarrow> versionOf r = gitRef E)"
proof -
  define r where "r = NewReferenceFromStrings (gitRef E) (referenceString hash)"
  have n: "refName r = gitRef E" by (simp add: r_def NewReferenceFromStrings_name)
  have g: "runGitRefs E mapKeysOrder git = Inr [r]"
    using assms by (simp add: runGitRefs_def r_def)
  have v: "versionOf r = (case tagToSemver r of None \<Rightarrow> gitRef E | Some v \<Rightarrow> versionString v)"
    by (simp add: versionOf_def n split: option.splits)
  have p: "versionOf r = gitRef E" if "\<not> prefix ''v'' (refShort (gitRef E))"
  proof -
    have "tagToSemver r = None" using that by (simp add: tagToSemver_def n)
    then show ?thesis by (simp add: versionOf_def n)
  qed
  show ?thesis
    by (rule exI[of _ r], intro conjI impI, rule g, rule n, rule v, rule p)
qed

theorem C6_explicit_reference_witness:
  "gitRef (exampleEnv\<lparr>gitRef := ''main''\<rparr>) \<noteq> []
   \<and> (\<exists>r. runGitRefs (exampleEnv\<lparr>gitRef := ''main''\<rparr>) rev exampleRepo = Inr [r]
          \<and> refName r = ''main'' \<and> versionOf r = ''main'')"
proof -
  have h1: "gitRef (exampleEnv\<lparr>gitRef := ''main''\<rparr>) \<noteq> []" by simp
  have h2: "ResolveReference exampleRepo (gitRef (exampleEnv\<lparr>gitRef := ''main''\<rparr>))
            = Inr \<lparr> refName = ''refs/heads/main'', refHash = replicate 40 CHR ''a'' \<rparr>"
    by (simp add: ResolveReference_def exampleRepo_def)
  have h3: "\<not> prefix ''v'' (refShort ''main'')" by code_simp
  from C6_explicit_reference[OF h1 h2, of rev] show ?thesis
  proof (elim exE conjE)
    fix r
    assume a: "runGitRefs (exampleEnv\<lparr>gitRef := ''main''\<rparr>) rev exampleRepo = Inr [r]"
      and b: "refName r = gitRef (exampleEnv\<lparr>gitRef := ''main''\<rparr>)"
      and c: "\<not> prefix ''v'' (refShort (gitRef (exampleEnv\<lparr>gitRef := ''main''\<rparr>)))
              \<longrightarrow> versionOf r = gitRef (exampleEnv\<lparr>gitRef := ''main''\<rparr>)"
    have g: "gitRef (exampleEnv\<lparr>gitRef := ''main''\<rparr>) = ''main''" by simp
    from c have "\<not> prefix ''v'' (refShort ''main'') \<longrightarrow> versionOf r = ''main''"
      unfolding g .
    from this h3 have d: "versionOf r = ''main''" by (rule mp)
    from b have b': "refName r = ''main''" by (simp only: g)
    show ?thesis
      by (rule conjI, rule h1, rule exI[of _ r], intro conjI, rule a, rule b', rule d)
  qed
qed

text \<open>
  C6, as stated, fails: for \<open>-git-ref v1.2.3\<close> the version, and so the directory, is
  \<open>1.2.3\<close>.
\<close>

theorem C6_version_label_counterexample:
  "runGitRefs (exampleEnv\<lparr>gitRef := ''v1.2.3''\<rparr>) rev exampleRepo
     = Inr [\<lparr> refName = ''v1.2.3'', refHash = replicate 40 CHR ''a'' \<rparr>]
   \<and> versionOf \<lparr> refName = ''v1.2.3'', refHash = replicate 40 CHR ''a'' \<rparr> = ''1.2.3''
   \<and> ''1.2.3'' \<noteq> ''v1.2.3''"
  by code_simp

section \<open>Documents without a specification object\<close>

lemma convert_no_spec:
  "map_of m ''spec'' = None
   \<Longrightarrow> convertSpecYAMLToJSONSchema E path (Inr m) version = Inl (errorsNew ''spec key not found in YAML'')"
  by (simp add: convertSpecYAMLToJSONSchema_def)

lemma convert_not_object:
  "map_of m ''spec'' = Some v \<Longrightarrow> \<forall>obj. v \<noteq> JObject obj
   \<Longrightarrow> convertSpecYAMLToJSONSchema E path (Inr m) version
       = Inl (Errorf ''spec is not an object, got %T'' [goTypeName v] None)"
  by (cases v) (simp_all add: convertSpecYAMLToJSONSchema_def)

lemma writeSchema_convert_error:
  "convertSpecYAMLToJSONSchema E relPath r version = Inl err
   \<Longrightarrow> writeSchema E relPath r destDir version w
       = (Some (Errorf ''failed converting spec.yml file to JSON schema for %q: %w'' [relPath] (Some err)),
          w)"
  by (simp add: writeSchema_def)

text \<open>
  C7. If the decoded document has no key \<open>spec\<close>, or its value is not an object, then
  \<open>convertSpecYAMLToJSONSchema\<close> fails, and \<open>writeSchema\<close> returns this error wrapped in
  one that names the relative path of the file, and writes nothing. The error is the
  same for every configuration, version and directory: it is returned before
  \<open>patchSchema\<close>, which is all that depends on them, is called.
\<close>

theorem C7_spec_not_an_object:
  assumes "map_of m ''spec'' = None \<or> (\<exists>v. map_of m ''spec'' = Some v \<and> (\<forall>obj. v \<noteq> JObject obj))"
  shows "\<exists>err. (err = errorsNew ''spec key not found in YAML''
                 \<or> (\<exists>v. map_of m ''spec'' = Some v
                        \<and> err = Errorf ''spec is not an object, got %T'' [goTypeName v] None))
           \<and> (\<forall>E version destDir.
                  convertSpecYAMLToJSONSchema E relPath (Inr m) version = Inl err
                  \<and> writeSchema E relPath (Inr m) destDir version w
                      = (Some (Errorf ''failed converting spec.yml file to JSON schema for %q: %w''
                                 [relPath] (Some err)), w))
           \<and> relPath \<in> set (errorArgs (Errorf ''failed converting spec.yml file to JSON schema for %q: %w''
                                          [relPath] (Some err)))"
  using assms
proof
  assume a: "map_of m ''spec'' = None"
  show ?thesis
    by (rule exI[of _ "errorsNew ''spec key not found in YAML''"])
       (simp add: convert_no_spec[OF a] writeSchema_convert_error)
next
  assume "\<exists>v. map_of m ''spec'' = Some v \<and> (\<forall>obj. v \<noteq> JObject obj)"
  then obtain v where v: "map_of m ''spec'' = Some v" "\<forall>obj. v \<noteq> JObject obj" by blast
  show ?thesis
    by (rule exI[of _ "Errorf ''spec is not an object, got %T'' [goTypeName v] None"])
       (simp add: convert_not_object[OF v] writeSchema_convert_error v(1))
qed

theorem C7_spec_not_an_object_witness:
  "(map_of [(''spec'', JArray [])] ''spec'' = None
    \<or> (\<exists>v. map_of [(''spec'', JArray [])] ''spec'' = Some v \<and> (\<forall>obj. v \<noteq> JObject obj)))
   \<and> writeSchema exampleEnv ''input/manifest.jsonschema.json'' (Inr [(''spec'', JArray [])])
        [''3.4.1'', ''jsonschema''] ''3.4.1'' \<lparr> files = Map.empty, stderr = [] \<rparr>
      = (Some (Errorf ''failed converting spec.yml file to JSON schema for %q: %w''
                 [''input/manifest.jsonschema.json'']
                 (Some (Errorf ''spec is not an object, got %T'' [''[]interface {}''] None))),
         \<lparr> files = Map.empty, stderr = [] \<rparr>)"
proof -
  have h: "map_of [(''spec'', JArray [])] ''spec'' = None
    \<or> (\<exists>v. map_of [(''spec'', JArray [])] ''spec'' = Some v \<and> (\<forall>obj. v \<noteq> JObject obj))"
    by simp
  from C7_spec_not_an_object[OF h, of "''input/manifest.jsonschema.json''" "\<lparr> files = Map.empty, stderr = [] \<rparr>"]
  show ?thesis
  proof (elim exE conjE)
    fix err
    assume e: "err = errorsNew ''spec key not found in YAML''
                 \<or> (\<exists>v. map_of [(''spec'', JArray [])] ''spec'' = Some v
                        \<and> err = Errorf ''spec is not an object, got %T'' [goTypeName v] None)"
      and a: "\<forall>(E :: env) version destDir.
                  convertSpecYAMLToJSONSchema E ''input/manifest.jsonschema.json'' (Inr [(''spec'', JArray [])]) version = Inl err
                  \<and> writeSchema E ''input/manifest.jsonschema.json'' (Inr [(''spec'', JArray [])]) destDir version \<lparr> files = Map.empty, stderr = [] \<rparr>
                      = (Some (Errorf ''failed converting spec.yml file to JSON schema for %q: %w''
                                 [''input/manifest.jsonschema.json''] (Some err)), \<lparr> files = Map.empty, stderr = [] \<rparr>)"
    have c: "convertSpecYAMLToJSONSchema exampleEnv ''input/manifest.jsonschema.json'' (Inr [(''spec'', JArray [])]) ''3.4.1''
             = Inl (Errorf ''spec is not an object, got %T'' [''[]interface {}''] None)"
      by (simp add: convertSpecYAMLToJSONSchema_def goTypeName_def)
    note a' = a[rule_format, of exampleEnv "''3.4.1''" "[''3.4.1'', ''jsonschema'']"]
    from a'[THEN conjunct1] c have err: "err = Errorf ''spec is not an object, got %T'' [''[]interface {}''] None"
      by (simp only: sum.inject)
    from a'[THEN conjunct2]
    have "writeSchema exampleEnv ''input/manifest.jsonschema.json'' (Inr [(''spec'', JArray [])])
        [''3.4.1'', ''jsonschema''] ''3.4.1'' \<lparr> files = Map.empty, stderr = [] \<rparr>
      = (Some (Errorf ''failed converting spec.yml file to JSON schema for %q: %w''
                                 [''input/manifest.jsonschema.json''] (Some err)), \<lparr> files = Map.empty, stderr = [] \<rparr>)" .
    then show ?thesis unfolding err using h by (intro conjI)
  qed
qed

section \<open>The output directory of a version\<close>

lemma cleanOnto_plain:
  "''..'' \<notin> set es \<Longrightarrow> cleanOnto p es = p @ filter (\<lambda>e. e \<noteq> [] \<and> e \<noteq> ''.'') es"
proof (induction es arbitrary: p)
  case Nil
  then show ?case by simp
next
  case (Cons e es)
  have ne: "e \<noteq> ''..''" using Cons.prems by auto
  have IH: "cleanOnto q es = q @ filter (\<lambda>e. e \<noteq> [] \<and> e \<noteq> ''.'') es" for q
    using Cons by simp
  show ?case
  proof (cases "e = [] \<or> e = ''.''")
    case True
    then show ?thesis using IH by auto
  next
    case False
    then show ?thesis using ne IH by simp
  qed
qed

lemma prefix_filepathJoin: "noParent s \<Longrightarrow> prefix d (filepathJoin d s)"
  by (simp add: noParent_def filepathJoin_def cleanOnto_plain)

lemma filepathJoin_manifest: "filepathJoin d ''manifest.jsonschema.json'' = d @ [''manifest.jsonschema.json'']"
proof -
  have "noParent ''manifest.jsonschema.json''" unfolding noParent_def by code_simp
  then have "filepathJoin d ''manifest.jsonschema.json''
             = d @ filter (\<lambda>e. e \<noteq> [] \<and> e \<noteq> ''.'') (splitOn CHR ''/'' ''manifest.jsonschema.json'')"
    by (simp add: noParent_def filepathJoin_def cleanOnto_plain)
  moreover have "filter (\<lambda>e. e \<noteq> [] \<and> e \<noteq> ''.'') (splitOn CHR ''/'' ''manifest.jsonschema.json'')
                 = [''manifest.jsonschema.json'']"
    by code_simp
  ultimately show ?thesis by simp
qed

lemma writeSchema_cases:
  assumes "writeSchema E rel r dir ver w = (res, w')"
  shows "w' = w \<or> (\<exists>buf. convertSpecYAMLToJSONSchema E rel r ver = Inr buf
                      \<and> w' = osWriteFile (filepathJoin dir rel) buf w)"
  using assms
  by (auto simp: writeSchema_def Let_def split: sum.splits option.splits)

lemma walkFn_cases:
  assumes "walkFn E repoPath dir ver e st = (res, written', w')"
  shows "w' = snd st
         \<or> (isSpecEntry e
             \<and> (\<exists>buf. convertSpecYAMLToJSONSchema E (relPathOf repoPath (wePath e)) (weDoc e) ver = Inr buf
                      \<and> w' = osWriteFile (filepathJoin dir (relPathOf repoPath (wePath e))) buf (snd st)))"
proof (cases "weWalkErr e = None \<and> isSpecEntry e \<and> weOpenErr e = None")
  case False
  then have "walkFn E repoPath dir ver e st = (weWalkErr e, st) \<or> walkFn E repoPath dir ver e st = (None, st)
             \<or> walkFn E repoPath dir ver e st = (weOpenErr e, st)"
    by (auto simp: walkFn_def isSpecEntry_def split: option.splits)
  then show ?thesis using assms by (cases st) auto
next
  case True
  obtain r w2 where ws: "writeSchema E (relPathOf repoPath (wePath e)) (weDoc e) dir ver (snd st) = (r, w2)"
    by (cases "writeSchema E (relPathOf repoPath (wePath e)) (weDoc e) dir ver (snd st)")
  have "w' = w2" using assms True ws
    by (auto simp: walkFn_def isSpecEntry_def Let_def split: option.splits)
  then show ?thesis using writeSchema_cases[OF ws] True by blast
qed


lemma entryWrote_Cons:
  "entryWrote E repoPath dir ver es p c \<Longrightarrow> entryWrote E repoPath dir ver (e # es) p c"
  by (auto simp: entryWrote_def)

lemma files_osWriteFile: "files (osWriteFile n c w) p = (if p = n then Some c else files w p)"
  by (simp add: osWriteFile_def)

lemma files_osRemoveAll: "files (osRemoveAll d w) p = (if prefix d p then None else files w p)"
  by (simp add: osRemoveAll_def)

lemma walkAll_inv:
  assumes "walkAll (walkFn E repoPath dir ver) es st = (res, written', w')"
  shows "files w' p = files (snd st) p
         \<or> (\<exists>c. files w' p = Some c \<and> entryWrote E repoPath dir ver es p c)"
  using assms
proof (induction es arbitrary: st)
  case Nil
  then show ?case by simp
next
  case (Cons e es)
  obtain r1 wr1 w1 where f: "walkFn E repoPath dir ver e st = (r1, wr1, w1)"
    by (cases "walkFn E repoPath dir ver e st")
  have step: "files w1 p = files (snd st) p
              \<or> (\<exists>c. files w1 p = Some c \<and> entryWrote E repoPath dir ver (e # es) p c)"
  proof -
    from walkFn_cases[OF f] show ?thesis
    proof
      assume "w1 = snd st"
      then show ?thesis by simp
    next
      assume a: "isSpecEntry e
             \<and> (\<exists>buf. convertSpecYAMLToJSONSchema E (relPathOf repoPath (wePath e)) (weDoc e) ver = Inr buf
                      \<and> w1 = osWriteFile (filepathJoin dir (relPathOf repoPath (wePath e))) buf (snd st))"
      then obtain buf where b: "convertSpecYAMLToJSONSchema E (relPathOf repoPath (wePath e)) (weDoc e) ver = Inr buf"
        "w1 = osWriteFile (filepathJoin dir (relPathOf repoPath (wePath e))) buf (snd st)" by blast
      show ?thesis
      proof (cases "p = filepathJoin dir (relPathOf repoPath (wePath e))")
        case True
        have "entryWrote E repoPath dir ver (e # es) p buf"
          unfolding entryWrote_def using a b(1) True by auto
        moreover have "files w1 p = Some buf" using True b(2) by (simp add: files_osWriteFile)
        ultimately show ?thesis by blast
      next
        case False
        then show ?thesis using b(2) by (simp add: files_osWriteFile)
      qed
    qed
  qed
  show ?case
  proof (cases r1)
    case (Some err)
    then have "w' = w1" using Cons.prems f by simp
    then show ?thesis using step by simp
  next
    case None
    then have "walkAll (walkFn E repoPath dir ver) es (wr1, w1) = (res, written', w')"
      using Cons.prems f by simp
    from Cons.IH[OF this]
    have "files w' p = files w1 p \<or> (\<exists>c. files w' p = Some c \<and> entryWrote E repoPath dir ver es p c)"
      by simp
    then show ?thesis
    proof
      assume "files w' p = files w1 p"
      then show ?thesis using step by auto
    next
      assume "\<exists>c. files w' p = Some c \<and> entryWrote E repoPath dir ver es p c"
      then show ?thesis using entryWrote_Cons by blast
    qed
  qed
qed

lemma writeSchemas_cases:
  assumes "writeSchemas E git ref w = (res, w')"
  shows "(w' = w \<and> res \<noteq> None)
         \<or> (\<exists>wt repoPath r written w2.
               worktreeOf git ref = Inr wt \<and> getSpecPath wt = Inr repoPath
               \<and> walkAll (walkFn E repoPath (versionDir E ref) (versionOf ref)) (wtWalk wt repoPath)
                    ([], osRemoveAll (versionDir E ref) w) = (r, written, w2)
               \<and> (w' = w2
                   \<or> (\<exists>b. combinedManifestSchema E written (versionOf ref) = Inr b
                          \<and> w' = osWriteFile (filepathJoin (versionDir E ref) ''manifest.jsonschema.json'') b w2)))"
proof (cases "checkoutErr git ref")
  case (Some err)
  then show ?thesis using assms by (auto simp: writeSchemas_def Let_def)
next
  case c: None
  show ?thesis
  proof (cases "worktreeOf git ref")
    case (Inl err)
    then show ?thesis using assms c by (auto simp: writeSchemas_def Let_def)
  next
    case wt: (Inr wt)
    show ?thesis
    proof (cases "getSpecPath wt")
      case (Inl err)
      then show ?thesis using assms c wt by (auto simp: writeSchemas_def Let_def)
    next
      case rp: (Inr repoPath)
      show ?thesis
      proof (cases "ioError E (RemoveAll (versionDir E ref))")
        case (Some err)
        then show ?thesis using assms c wt rp by (auto simp: writeSchemas_def Let_def versionDir_def)
      next
        case io: None
        obtain r written w2 where
          wa: "walkAll (walkFn E repoPath (versionDir E ref) (versionOf ref)) (wtWalk wt repoPath)
                    ([], osRemoveAll (versionDir E ref) w) = (r, written, w2)"
          by (cases "walkAll (walkFn E repoPath (versionDir E ref) (versionOf ref)) (wtWalk wt repoPath)
                    ([], osRemoveAll (versionDir E ref) w)")
        have "w' = w2
              \<or> (\<exists>b. combinedManifestSchema E written (versionOf ref) = Inr b
                     \<and> w' = osWriteFile (filepathJoin (versionDir E ref) ''manifest.jsonschema.json'') b w2)"
          using assms c wt rp io wa[unfolded versionDir_def]
          by (auto simp: writeSchemas_def Let_def versionDir_def split: option.splits sum.splits if_splits)
        then show ?thesis using wt rp wa by blast
      qed
    qed
  qed
qed


lemma example_clean:
  "\<forall>wt repoPath.
     worktreeOf exampleRepo \<lparr> refName = ''refs/tags/v1.3.0'', refHash = replicate 40 CHR ''4'' \<rparr> = Inr wt
     \<and> getSpecPath wt = Inr repoPath
     \<longrightarrow> (\<forall>e \<in> set (wtWalk wt repoPath). isSpecEntry e \<longrightarrow> noParent (relPathOf repoPath (wePath e)))"
proof (intro allI impI, elim conjE)
  fix wt repoPath
  assume a: "worktreeOf exampleRepo \<lparr> refName = ''refs/tags/v1.3.0'', refHash = replicate 40 CHR ''4'' \<rparr> = Inr wt"
    and b: "getSpecPath wt = Inr repoPath"
  have wt: "wt = exampleTree" using a by (simp add: exampleRepo_def)
  have "getSpecPath exampleTree = Inr ''spec''" by code_simp
  then have rp: "repoPath = ''spec''" using b wt by simp
  have "list_all (\<lambda>e. isSpecEntry e \<longrightarrow> noParent (relPathOf ''spec'' (wePath e))) (wtWalk exampleTree ''spec'')"
    by code_simp
  then show "\<forall>e \<in> set (wtWalk wt repoPath). isSpecEntry e \<longrightarrow> noParent (relPathOf repoPath (wePath e))"
    unfolding wt rp by (simp only: list_all_iff)
qed

lemma example_run:
  "fst (writeSchemas exampleEnv exampleRepo
          \<lparr> refName = ''refs/tags/v1.3.0'', refHash = replicate 40 CHR ''4'' \<rparr>
          \<lparr> files = [[''1.3.0'', ''jsonschema'', ''old.jsonschema.json''] \<mapsto> ''stale'',
                     [''1.2.0'', ''jsonschema'', ''manifest.jsonschema.json''] \<mapsto> ''kept''],
            stderr = [] \<rparr>)
   = None"
  by code_simp

lemma example_dir:
  "versionDir exampleEnv \<lparr> refName = ''refs/tags/v1.3.0'', refHash = replicate 40 CHR ''4'' \<rparr>
   = [''1.3.0'', ''jsonschema'']"
  by code_simp


lemma writeSchema_success:
  assumes "writeSchema E rel r dir ver w = (None, w')"
  shows "\<exists>buf. convertSpecYAMLToJSONSchema E rel r ver = Inr buf
               \<and> w' = osWriteFile (filepathJoin dir rel) buf w"
  using assms
  by (auto simp: writeSchema_def Let_def split: sum.splits option.splits)

lemma walkFn_success:
  assumes "walkFn E repoPath dir ver e (wr, w) = (None, wr', w')"
  shows "(\<not> isSpecEntry e \<and> wr' = wr \<and> w' = w)
         \<or> (isSpecEntry e
             \<and> (\<exists>buf. convertSpecYAMLToJSONSchema E (relPathOf repoPath (wePath e)) (weDoc e) ver = Inr buf
                      \<and> wr' = wr @ [relPathOf repoPath (wePath e)]
                      \<and> w' = osWriteFile (targetOf repoPath dir e) buf w))"
proof (cases "isSpecEntry e")
  case False
  then have "walkFn E repoPath dir ver e (wr, w) = (weWalkErr e, wr, w) \<or> walkFn E repoPath dir ver e (wr, w) = (None, wr, w)"
    by (auto simp: walkFn_def isSpecEntry_def split: option.splits)
  then show ?thesis using assms False by auto
next
  case True
  obtain r w2 where ws: "writeSchema E (relPathOf repoPath (wePath e)) (weDoc e) dir ver w = (r, w2)"
    by (cases "writeSchema E (relPathOf repoPath (wePath e)) (weDoc e) dir ver w")
  have "r = None \<and> w' = w2 \<and> wr' = wr @ [relPathOf repoPath (wePath e)]"
    using assms True ws
    by (auto simp: walkFn_def isSpecEntry_def Let_def split: option.splits)
  then show ?thesis using writeSchema_success[of E _ _ dir ver w w2] ws True
    unfolding targetOf_def by blast
qed

lemma convertedAt_Nil: "convertedAt E repoPath dir ver [] p = None"
  by (simp add: convertedAt_def)

lemma convertedAt_Cons:
  "convertedAt E repoPath dir ver (e # es) p =
     (if filter (\<lambda>e. isSpecEntry e \<and> targetOf repoPath dir e = p) es \<noteq> []
      then convertedAt E repoPath dir ver es p
      else if isSpecEntry e \<and> targetOf repoPath dir e = p
      then (case convertSpecYAMLToJSONSchema E (relPathOf repoPath (wePath e)) (weDoc e) ver of
              Inl err \<Rightarrow> None | Inr content \<Rightarrow> Some content)
      else None)"
  by (auto simp: convertedAt_def split: list.splits)

lemma walkAll_success:
  assumes "walkAll (walkFn E repoPath dir ver) es (wr, w) = (None, wr', w')"
  shows "wr' = wr @ writtenPaths repoPath es
         \<and> (\<forall>e \<in> set es. isSpecEntry e \<longrightarrow>
               (\<exists>c. convertSpecYAMLToJSONSchema E (relPathOf repoPath (wePath e)) (weDoc e) ver = Inr c))
         \<and> (\<forall>p. files w' p = (case convertedAt E repoPath dir ver es p of
                                 None \<Rightarrow> files w p | Some c \<Rightarrow> Some c))"
  using assms
proof (induction es arbitrary: wr w)
  case Nil
  then show ?case by (simp add: writtenPaths_def convertedAt_Nil)
next
  case (Cons e es)
  obtain r1 wr1 w1 where f: "walkFn E repoPath dir ver e (wr, w) = (r1, wr1, w1)"
    by (cases "walkFn E repoPath dir ver e (wr, w)")
  have r1: "r1 = None" using Cons.prems f by (cases r1) simp_all
  have rest: "walkAll (walkFn E repoPath dir ver) es (wr1, w1) = (None, wr', w')"
    using Cons.prems f r1 by simp
  note IH = Cons.IH[OF rest]
  have all: "\<forall>e \<in> set es. isSpecEntry e \<longrightarrow>
               (\<exists>c. convertSpecYAMLToJSONSchema E (relPathOf repoPath (wePath e)) (weDoc e) ver = Inr c)"
    using IH by blast
  have later: "convertedAt E repoPath dir ver es p \<noteq> None"
    if "filter (\<lambda>e. isSpecEntry e \<and> targetOf repoPath dir e = p) es \<noteq> []" for p
  proof -
    let ?fs = "filter (\<lambda>e. isSpecEntry e \<and> targetOf repoPath dir e = p) es"
    have "last ?fs \<in> set ?fs" using that by (rule last_in_set)
    then have "last ?fs \<in> set es" "isSpecEntry (last ?fs)" by auto
    with all obtain c where
      "convertSpecYAMLToJSONSchema E (relPathOf repoPath (wePath (last ?fs))) (weDoc (last ?fs)) ver = Inr c"
      by blast
    then show ?thesis using that unfolding convertedAt_def by (cases ?fs) auto
  qed
  have files: "files w' p = (case convertedAt E repoPath dir ver es p of
                                 None \<Rightarrow> files w1 p | Some c \<Rightarrow> Some c)" for p
    using IH by blast
  from walkFn_success[OF f[unfolded r1]] show ?case
  proof
    assume a: "\<not> isSpecEntry e \<and> wr1 = wr \<and> w1 = w"
    have "wr' = wr @ writtenPaths repoPath (e # es)"
      using IH a by (simp add: writtenPaths_def)
    moreover have "files w' p = (case convertedAt E repoPath dir ver (e # es) p of
                                 None \<Rightarrow> files w p | Some c \<Rightarrow> Some c)" for p
    proof (cases "filter (\<lambda>e. isSpecEntry e \<and> targetOf repoPath dir e = p) es \<noteq> []")
      case True
      then show ?thesis using files[of p] later[OF True] by (auto simp: convertedAt_Cons)
    next
      case False
      then have "convertedAt E repoPath dir ver es p = None" by (simp add: convertedAt_def)
      then have "files w' p = files w1 p" using files[of p] by simp
      then show ?thesis using False a by (simp add: convertedAt_Cons)
    qed
    ultimately show ?thesis using all a by auto
  next
    assume a: "isSpecEntry e
             \<and> (\<exists>buf. convertSpecYAMLToJSONSchema E (relPathOf repoPath (wePath e)) (weDoc e) ver = Inr buf
                      \<and> wr1 = wr @ [relPathOf repoPath (wePath e)]
                      \<and> w1 = osWriteFile (targetOf repoPath dir e) buf w)"
    then obtain buf where
      b: "convertSpecYAMLToJSONSchema E (relPathOf repoPath (wePath e)) (weDoc e) ver = Inr buf"
         "wr1 = wr @ [relPathOf repoPath (wePath e)]"
         "w1 = osWriteFile (targetOf repoPath dir e) buf w"
      by blast
    have "wr' = wr @ writtenPaths repoPath (e # es)"
      using IH a b(2) by (simp add: writtenPaths_def)
    moreover have "files w' p = (case convertedAt E repoPath dir ver (e # es) p of
                                 None \<Rightarrow> files w p | Some c \<Rightarrow> Some c)" for p
    proof (cases "filter (\<lambda>e. isSpecEntry e \<and> targetOf repoPath dir e = p) es \<noteq> []")
      case True
      then show ?thesis using files[of p] later[OF True] by (auto simp: convertedAt_Cons)
    next
      case False
      then have "convertedAt E repoPath dir ver es p = None" by (simp add: convertedAt_def)
      then have "files w' p = files w1 p" using files[of p] by simp
      then show ?thesis using False a b(1,3)
        by (simp add: convertedAt_Cons files_osWriteFile)
    qed
    ultimately show ?thesis using all a b(1) by auto
  qed
qed

lemma writeSchemas_success:
  assumes "writeSchemas E git ref w = (None, w')"
  shows "\<exists>wt repoPath written w2.
           worktreeOf git ref = Inr wt \<and> getSpecPath wt = Inr repoPath
           \<and> walkAll (walkFn E repoPath (versionDir E ref) (versionOf ref)) (wtWalk wt repoPath)
                ([], osRemoveAll (versionDir E ref) w) = (None, written, w2)
           \<and> (if ''manifest.jsonschema.json'' \<in> set written then w' = w2
               else (\<exists>b. combinedManifestSchema E written (versionOf ref) = Inr b
                        \<and> w' = osWriteFile (filepathJoin (versionDir E ref) ''manifest.jsonschema.json'') b w2))"
proof (cases "checkoutErr git ref")
  case (Some err)
  then show ?thesis using assms by (auto simp: writeSchemas_def Let_def)
next
  case c: None
  show ?thesis
  proof (cases "worktreeOf git ref")
    case (Inl err)
    then show ?thesis using assms c by (auto simp: writeSchemas_def Let_def)
  next
    case wt: (Inr wt)
    show ?thesis
    proof (cases "getSpecPath wt")
      case (Inl err)
      then show ?thesis using assms c wt by (auto simp: writeSchemas_def Let_def)
    next
      case rp: (Inr repoPath)
      show ?thesis
      proof (cases "ioError E (RemoveAll (versionDir E ref))")
        case (Some err)
        then show ?thesis using assms c wt rp by (auto simp: writeSchemas_def Let_def versionDir_def)
      next
        case io: None
        obtain r written w2 where
          wa: "walkAll (walkFn E repoPath (versionDir E ref) (versionOf ref)) (wtWalk wt repoPath)
                    ([], osRemoveAll (versionDir E ref) w) = (r, written, w2)"
          by (cases "walkAll (walkFn E repoPath (versionDir E ref) (versionOf ref)) (wtWalk wt repoPath)
                    ([], osRemoveAll (versionDir E ref) w)")
        have "r = None \<and> (if ''manifest.jsonschema.json'' \<in> set written then w' = w2
               else (\<exists>b. combinedManifestSchema E written (versionOf ref) = Inr b
                        \<and> w' = osWriteFile (filepathJoin (versionDir E ref) ''manifest.jsonschema.json'') b w2))"
          using assms c wt rp io wa[unfolded versionDir_def]
          by (auto simp: writeSchemas_def Let_def versionDir_def split: option.splits sum.splits if_splits)
        then show ?thesis using wt rp wa by blast
      qed
    qed
  qed
qed

lemma writeSchemas_exact:
  assumes "writeSchemas E git ref w = (None, w')"
  shows "\<exists>wt repoPath.
           worktreeOf git ref = Inr wt \<and> getSpecPath wt = Inr repoPath
           \<and> (\<forall>p. files w' p =
                    (case expectedFiles E repoPath (versionDir E ref) (versionOf ref) (wtWalk wt repoPath) p of
                       None \<Rightarrow> files (osRemoveAll (versionDir E ref) w) p
                     | Some c \<Rightarrow> Some c))
           \<and> (\<forall>e \<in> set (wtWalk wt repoPath). isSpecEntry e \<longrightarrow>
                 expectedFiles E repoPath (versionDir E ref) (versionOf ref) (wtWalk wt repoPath)
                   (targetOf repoPath (versionDir E ref) e) \<noteq> None)
           \<and> expectedFiles E repoPath (versionDir E ref) (versionOf ref) (wtWalk wt repoPath)
               (filepathJoin (versionDir E ref) ''manifest.jsonschema.json'') \<noteq> None"
proof -
  define dir where "dir = versionDir E ref"
  define ver where "ver = versionOf ref"
  define mp where "mp = filepathJoin dir ''manifest.jsonschema.json''"
  from writeSchemas_success[OF assms] obtain wt repoPath written w2 where
    wt: "worktreeOf git ref = Inr wt" and rp: "getSpecPath wt = Inr repoPath"
    and wa: "walkAll (walkFn E repoPath dir ver) (wtWalk wt repoPath) ([], osRemoveAll dir w)
             = (None, written, w2)"
    and fin: "if ''manifest.jsonschema.json'' \<in> set written then w' = w2
               else (\<exists>b. combinedManifestSchema E written ver = Inr b \<and> w' = osWriteFile mp b w2)"
    unfolding dir_def ver_def mp_def by blast
  define es where "es = wtWalk wt repoPath"
  from walkAll_success[OF wa] have
    wr: "written = writtenPaths repoPath es"
    and conv: "\<forall>e \<in> set es. isSpecEntry e \<longrightarrow>
               (\<exists>c. convertSpecYAMLToJSONSchema E (relPathOf repoPath (wePath e)) (weDoc e) ver = Inr c)"
    and fs: "\<And>p. files w2 p = (case convertedAt E repoPath dir ver es p of
                                 None \<Rightarrow> files (osRemoveAll dir w) p | Some c \<Rightarrow> Some c)"
    unfolding es_def by simp_all
  have conv_some: "convertedAt E repoPath dir ver es (targetOf repoPath dir e) \<noteq> None"
    if "e \<in> set es" "isSpecEntry e" for e
  proof -
    let ?fs = "filter (\<lambda>x. isSpecEntry x \<and> targetOf repoPath dir x = targetOf repoPath dir e) es"
    have ne: "?fs \<noteq> []" using that by (auto simp: filter_empty_conv)
    then have "last ?fs \<in> set ?fs" by (rule last_in_set)
    then have "last ?fs \<in> set es" "isSpecEntry (last ?fs)" by auto
    with conv obtain c where
      "convertSpecYAMLToJSONSchema E (relPathOf repoPath (wePath (last ?fs))) (weDoc (last ?fs)) ver = Inr c"
      by blast
    then show ?thesis using ne unfolding convertedAt_def by (cases ?fs) auto
  qed
  have exact: "files w' p = (case expectedFiles E repoPath dir ver es p of
                       None \<Rightarrow> files (osRemoveAll dir w) p | Some c \<Rightarrow> Some c)" for p
  proof (cases "''manifest.jsonschema.json'' \<in> set written")
    case True
    then have "w' = w2" using fin by simp
    then show ?thesis using fs[of p] True wr by (simp add: expectedFiles_def)
  next
    case False
    then obtain b where b: "combinedManifestSchema E written ver = Inr b" "w' = osWriteFile mp b w2"
      using fin by auto
    show ?thesis
    proof (cases "p = mp")
      case True
      then show ?thesis using b False wr by (simp add: expectedFiles_def files_osWriteFile mp_def)
    next
      case np: False
      then have "files w' p = files w2 p" using b(2) by (simp add: files_osWriteFile)
      then show ?thesis using fs[of p] np by (simp add: expectedFiles_def mp_def)
    qed
  qed
  have present: "expectedFiles E repoPath dir ver es (targetOf repoPath dir e) \<noteq> None"
    if "e \<in> set es" "isSpecEntry e" for e
  proof (cases "targetOf repoPath dir e = mp \<and> ''manifest.jsonschema.json'' \<notin> set written")
    case True
    then obtain b where "combinedManifestSchema E written ver = Inr b" using fin by auto
    then show ?thesis using True wr by (simp add: expectedFiles_def mp_def)
  next
    case False
    then show ?thesis using conv_some[OF that] wr by (auto simp: expectedFiles_def mp_def)
  qed
  have manifest: "expectedFiles E repoPath dir ver es mp \<noteq> None"
  proof (cases "''manifest.jsonschema.json'' \<in> set written")
    case True
    then obtain e where e: "e \<in> set es" "isSpecEntry e" "relPathOf repoPath (wePath e) = ''manifest.jsonschema.json''"
      unfolding wr writtenPaths_def by auto
    then have "targetOf repoPath dir e = mp" by (simp add: targetOf_def mp_def)
    then show ?thesis using present[OF e(1,2)] by simp
  next
    case False
    then obtain b where "combinedManifestSchema E written ver = Inr b" using fin by auto
    then show ?thesis using False wr by (simp add: expectedFiles_def mp_def)
  qed
  show ?thesis
    using wt rp exact present manifest unfolding dir_def ver_def mp_def es_def by blast
qed

lemma writeSchemas_frame:
  assumes clean: "\<forall>wt repoPath. worktreeOf git ref = Inr wt \<and> getSpecPath wt = Inr repoPath
                    \<longrightarrow> (\<forall>e \<in> set (wtWalk wt repoPath).
                           isSpecEntry e \<longrightarrow> noParent (relPathOf repoPath (wePath e)))"
    and run: "writeSchemas E git ref w = (res, w')"
    and out: "\<not> prefix (versionDir E ref) p"
  shows "files w' p = files w p"
proof -
  define dir where "dir = versionDir E ref"
  define mp where "mp = filepathJoin dir ''manifest.jsonschema.json''"
  have mpre: "prefix dir mp" by (simp add: mp_def filepathJoin_manifest)
  from writeSchemas_cases[OF run] show ?thesis
  proof
    assume "w' = w \<and> res \<noteq> None"
    then show ?thesis by auto
  next
    assume "\<exists>wt repoPath r written w2.
               worktreeOf git ref = Inr wt \<and> getSpecPath wt = Inr repoPath
               \<and> walkAll (walkFn E repoPath (versionDir E ref) (versionOf ref)) (wtWalk wt repoPath)
                    ([], osRemoveAll (versionDir E ref) w) = (r, written, w2)
               \<and> (w' = w2
                   \<or> (\<exists>b. combinedManifestSchema E written (versionOf ref) = Inr b
                          \<and> w' = osWriteFile (filepathJoin (versionDir E ref) ''manifest.jsonschema.json'') b w2))"
    then obtain wt repoPath r written w2 where
      wt: "worktreeOf git ref = Inr wt" and rp: "getSpecPath wt = Inr repoPath"
      and wa: "walkAll (walkFn E repoPath dir (versionOf ref)) (wtWalk wt repoPath)
                    ([], osRemoveAll dir w) = (r, written, w2)"
      and fin: "w' = w2 \<or> (\<exists>b. combinedManifestSchema E written (versionOf ref) = Inr b
                          \<and> w' = osWriteFile mp b w2)"
      unfolding dir_def mp_def by blast
    have cl: "noParent (relPathOf repoPath (wePath e))"
      if "e \<in> set (wtWalk wt repoPath)" "isSpecEntry e" for e
      using clean wt rp that by blast
    have inv: "files w2 p = files (osRemoveAll dir w) p
               \<or> (\<exists>c. files w2 p = Some c
                     \<and> entryWrote E repoPath dir (versionOf ref) (wtWalk wt repoPath) p c)"
      using walkAll_inv[OF wa, of p] by simp
    have under: "prefix dir p"
      if "entryWrote E repoPath dir (versionOf ref) (wtWalk wt repoPath) p c" for c
      using that cl prefix_filepathJoin unfolding entryWrote_def by blast
    have frame2: "files w2 p = files w p"
      using inv out under by (auto simp: files_osRemoveAll dir_def)
    have "p \<noteq> mp" using out mpre by (auto simp: dir_def)
    then have "files w' p = files w2 p" using fin by (auto simp: files_osWriteFile)
    then show ?thesis using frame2 by simp
  qed
qed

lemma example_expected:
  "expectedFiles exampleEnv ''spec'' [''1.3.0'', ''jsonschema'']
     (versionOf \<lparr> refName = ''refs/tags/v1.3.0'', refHash = replicate 40 CHR ''4'' \<rparr>)
     (wtWalk exampleTree ''spec'') [''1.3.0'', ''jsonschema'', ''old.jsonschema.json''] = None
   \<and> expectedFiles exampleEnv ''spec'' [''1.3.0'', ''jsonschema'']
     (versionOf \<lparr> refName = ''refs/tags/v1.3.0'', refHash = replicate 40 CHR ''4'' \<rparr>)
     (wtWalk exampleTree ''spec'') [''1.3.0'', ''jsonschema'', ''input'', ''manifest.jsonschema.json'']
     = Some []
   \<and> expectedFiles exampleEnv ''spec'' [''1.3.0'', ''jsonschema'']
     (versionOf \<lparr> refName = ''refs/tags/v1.3.0'', refHash = replicate 40 CHR ''4'' \<rparr>)
     (wtWalk exampleTree ''spec'') [''1.3.0'', ''jsonschema'', ''manifest.jsonschema.json'']
     = Some []"
  by code_simp

text \<open>
  C10. Let the walk of the work tree yield no path with an element \<open>..\<close> below the
  directory of the specifications. Then \<open>writeSchemas\<close> leaves every file outside the
  directory \<open>version/jsonschema\<close> of its version as it was, whether it fails or not.
  After a run without error that directory holds exactly what this run has produced
  from the work tree that is checked out, whatever it held before: at every path in it,
  the file is the one that \<open>expectedFiles\<close> names (the conversion of the last
  specification of the walk that goes to this path, or the manifest synthesized from
  the relative paths that this run has written) and there is no file where
  \<open>expectedFiles\<close> names none; the schema of every specification of the walk is there,
  and so is \<open>manifest.jsonschema.json\<close>. So the directory is removed before the first
  file is written, and not after.
\<close>

theorem C10_output_directory_rebuilt:
  assumes clean: "\<forall>wt repoPath. worktreeOf git ref = Inr wt \<and> getSpecPath wt = Inr repoPath
                    \<longrightarrow> (\<forall>e \<in> set (wtWalk wt repoPath).
                           isSpecEntry e \<longrightarrow> noParent (relPathOf repoPath (wePath e)))"
    and run: "writeSchemas E git ref w = (res, w')"
  shows "(\<forall>p. \<not> prefix (versionDir E ref) p \<longrightarrow> files w' p = files w p)
       \<and> (res = None \<longrightarrow>
            (\<exists>wt repoPath. worktreeOf git ref = Inr wt \<and> getSpecPath wt = Inr repoPath
               \<and> (\<forall>p. prefix (versionDir E ref) p
                      \<longrightarrow> files w' p
                          = expectedFiles E repoPath (versionDir E ref) (versionOf ref)
                              (wtWalk wt repoPath) p)
               \<and> (\<forall>e \<in> set (wtWalk wt repoPath). isSpecEntry e
                      \<longrightarrow> prefix (versionDir E ref) (targetOf repoPath (versionDir E ref) e)
                          \<and> files w' (targetOf repoPath (versionDir E ref) e) \<noteq> None)
               \<and> files w' (filepathJoin (versionDir E ref) ''manifest.jsonschema.json'') \<noteq> None))"
proof -
  define dir where "dir = versionDir E ref"
  have frame: "\<forall>p. \<not> prefix dir p \<longrightarrow> files w' p = files w p"
    using writeSchemas_frame[OF clean run] unfolding dir_def by blast
  have success: "\<exists>wt repoPath. worktreeOf git ref = Inr wt \<and> getSpecPath wt = Inr repoPath
               \<and> (\<forall>p. prefix dir p
                      \<longrightarrow> files w' p = expectedFiles E repoPath dir (versionOf ref) (wtWalk wt repoPath) p)
               \<and> (\<forall>e \<in> set (wtWalk wt repoPath). isSpecEntry e
                      \<longrightarrow> prefix dir (targetOf repoPath dir e)
                          \<and> files w' (targetOf repoPath dir e) \<noteq> None)
               \<and> files w' (filepathJoin dir ''manifest.jsonschema.json'') \<noteq> None"
    if ok: "res = None"
  proof -
    from run ok have "writeSchemas E git ref w = (None, w')" by simp
    from writeSchemas_exact[OF this] obtain wt repoPath where
      wt: "worktreeOf git ref = Inr wt" and rp: "getSpecPath wt = Inr repoPath"
      and exact: "\<And>p. files w' p =
                    (case expectedFiles E repoPath dir (versionOf ref) (wtWalk wt repoPath) p of
                       None \<Rightarrow> files (osRemoveAll dir w) p
                     | Some c \<Rightarrow> Some c)"
      and present: "\<And>e. e \<in> set (wtWalk wt repoPath) \<Longrightarrow> isSpecEntry e \<Longrightarrow>
                 expectedFiles E repoPath dir (versionOf ref) (wtWalk wt repoPath)
                   (targetOf repoPath dir e) \<noteq> None"
      and manifest: "expectedFiles E repoPath dir (versionOf ref) (wtWalk wt repoPath)
               (filepathJoin dir ''manifest.jsonschema.json'') \<noteq> None"
      unfolding dir_def by blast
    have a: "files w' p = expectedFiles E repoPath dir (versionOf ref) (wtWalk wt repoPath) p"
      if "prefix dir p" for p
      using exact[of p] that by (simp add: files_osRemoveAll split: option.splits)
    have b: "prefix dir (targetOf repoPath dir e) \<and> files w' (targetOf repoPath dir e) \<noteq> None"
      if "e \<in> set (wtWalk wt repoPath)" "isSpecEntry e" for e
    proof -
      have "noParent (relPathOf repoPath (wePath e))" using clean wt rp that by blast
      then have "prefix dir (targetOf repoPath dir e)"
        unfolding targetOf_def by (rule prefix_filepathJoin)
      moreover have "files w' (targetOf repoPath dir e) \<noteq> None"
        using exact[of "targetOf repoPath dir e"] present[OF that] by (auto split: option.splits)
      ultimately show ?thesis by simp
    qed
    have c: "files w' (filepathJoin dir ''manifest.jsonschema.json'') \<noteq> None"
      using exact[of "filepathJoin dir ''manifest.jsonschema.json''"] manifest
      by (auto split: option.splits)
    show ?thesis using wt rp a b c by blast
  qed
  show ?thesis using frame success unfolding dir_def by blast
qed

theorem C10_output_directory_rebuilt_witness:
  "fst (writeSchemas exampleEnv exampleRepo
          \<lparr> refName = ''refs/tags/v1.3.0'', refHash = replicate 40 CHR ''4'' \<rparr>
          \<lparr> files = [[''1.3.0'', ''jsonschema'', ''old.jsonschema.json''] \<mapsto> ''stale'',
                     [''1.2.0'', ''jsonschema'', ''manifest.jsonschema.json''] \<mapsto> ''kept''],
            stderr = [] \<rparr>) = None
   \<and> files (snd (writeSchemas exampleEnv exampleRepo
          \<lparr> refName = ''refs/tags/v1.3.0'', refHash = replicate 40 CHR ''4'' \<rparr>
          \<lparr> files = [[''1.3.0'', ''jsonschema'', ''old.jsonschema.json''] \<mapsto> ''stale'',
                     [''1.2.0'', ''jsonschema'', ''manifest.jsonschema.json''] \<mapsto> ''kept''],
            stderr = [] \<rparr>)) [''1.3.0'', ''jsonschema'', ''old.jsonschema.json''] = None
   \<and> files (snd (writeSchemas exampleEnv exampleRepo
          \<lparr> refName = ''refs/tags/v1.3.0'', refHash = replicate 40 CHR ''4'' \<rparr>
          \<lparr> files = [[''1.3.0'', ''jsonschema'', ''old.jsonschema.json''] \<mapsto> ''stale'',
                     [''1.2.0'', ''jsonschema'', ''manifest.jsonschema.json''] \<mapsto> ''kept''],
            stderr = [] \<rparr>)) [''1.3.0'', ''jsonschema'', ''input'', ''manifest.jsonschema.json'']
       = Some []
   \<and> files (snd (writeSchemas exampleEnv exampleRepo
          \<lparr> refName = ''refs/tags/v1.3.0'', refHash = replicate 40 CHR ''4'' \<rparr>
          \<lparr> files = [[''1.3.0'', ''jsonschema'', ''old.jsonschema.json''] \<mapsto> ''stale'',
                     [''1.2.0'', ''jsonschema'', ''manifest.jsonschema.json''] \<mapsto> ''kept''],
            stderr = [] \<rparr>)) [''1.3.0'', ''jsonschema'', ''manifest.jsonschema.json'']
       = Some []
   \<and> files (snd (writeSchemas exampleEnv exampleRepo
          \<lparr> refName = ''refs/tags/v1.3.0'', refHash = replicate 40 CHR ''4'' \<rparr>
          \<lparr> files = [[''1.3.0'', ''jsonschema'', ''old.jsonschema.json''] \<mapsto> ''stale'',
                     [''1.2.0'', ''jsonschema'', ''manifest.jsonschema.json''] \<mapsto> ''kept''],
            stderr = [] \<rparr>)) [''1.2.0'', ''jsonschema'', ''manifest.jsonschema.json''] = Some ''kept''"
proof -
  define wOut where "wOut = snd (writeSchemas exampleEnv exampleRepo
          \<lparr> refName = ''refs/tags/v1.3.0'', refHash = replicate 40 CHR ''4'' \<rparr>
          \<lparr> files = [[''1.3.0'', ''jsonschema'', ''old.jsonschema.json''] \<mapsto> ''stale'',
                     [''1.2.0'', ''jsonschema'', ''manifest.jsonschema.json''] \<mapsto> ''kept''],
            stderr = [] \<rparr>)"
  have run: "writeSchemas exampleEnv exampleRepo \<lparr> refName = ''refs/tags/v1.3.0'', refHash = replicate 40 CHR ''4'' \<rparr>
               \<lparr> files = [[''1.3.0'', ''jsonschema'', ''old.jsonschema.json''] \<mapsto> ''stale'',
                     [''1.2.0'', ''jsonschema'', ''manifest.jsonschema.json''] \<mapsto> ''kept''],
            stderr = [] \<rparr>
             = (None, wOut)"
    by (simp only: prod_eq_iff fst_conv snd_conv example_run wOut_def simp_thms)
  note inst = C10_output_directory_rebuilt[OF example_clean run, unfolded example_dir]
  have "\<not> prefix [''1.3.0'', ''jsonschema''] [''1.2.0'', ''jsonschema'', ''manifest.jsonschema.json'']"
    by simp
  with inst[THEN conjunct1]
  have "files wOut [''1.2.0'', ''jsonschema'', ''manifest.jsonschema.json'']
        = files \<lparr> files = [[''1.3.0'', ''jsonschema'', ''old.jsonschema.json''] \<mapsto> ''stale'',
                     [''1.2.0'', ''jsonschema'', ''manifest.jsonschema.json''] \<mapsto> ''kept''],
            stderr = [] \<rparr> [''1.2.0'', ''jsonschema'', ''manifest.jsonschema.json'']"
    by blast
  then have frame: "files wOut [''1.2.0'', ''jsonschema'', ''manifest.jsonschema.json''] = Some ''kept''"
    by simp
  from inst[THEN conjunct2] obtain wt repoPath where
    wt: "worktreeOf exampleRepo \<lparr> refName = ''refs/tags/v1.3.0'', refHash = replicate 40 CHR ''4'' \<rparr> = Inr wt"
    and rp: "getSpecPath wt = Inr repoPath"
    and fr: "\<forall>p. prefix [''1.3.0'', ''jsonschema''] p
               \<longrightarrow> files wOut p
                   = expectedFiles exampleEnv repoPath [''1.3.0'', ''jsonschema'']
                       (versionOf \<lparr> refName = ''refs/tags/v1.3.0'', refHash = replicate 40 CHR ''4'' \<rparr>)
                       (wtWalk wt repoPath) p"
    by blast
  have wte: "wt = exampleTree" using wt by (simp add: exampleRepo_def)
  have "getSpecPath exampleTree = Inr ''spec''" by code_simp
  then have rpe: "repoPath = ''spec''" using rp wte by simp
  have eq: "files wOut p
            = expectedFiles exampleEnv ''spec'' [''1.3.0'', ''jsonschema'']
                (versionOf \<lparr> refName = ''refs/tags/v1.3.0'', refHash = replicate 40 CHR ''4'' \<rparr>)
                (wtWalk exampleTree ''spec'') p"
    if "prefix [''1.3.0'', ''jsonschema''] p" for p
    using fr that unfolding wte rpe by blast
  have a: "files wOut [''1.3.0'', ''jsonschema'', ''old.jsonschema.json''] = None"
    using eq[of "[''1.3.0'', ''jsonschema'', ''old.jsonschema.json'']"] example_expected by simp
  have b: "files wOut [''1.3.0'', ''jsonschema'', ''input'', ''manifest.jsonschema.json''] = Some []"
    using eq[of "[''1.3.0'', ''jsonschema'', ''input'', ''manifest.jsonschema.json'']"] example_expected
    by simp
  have c: "files wOut [''1.3.0'', ''jsonschema'', ''manifest.jsonschema.json''] = Some []"
    using eq[of "[''1.3.0'', ''jsonschema'', ''manifest.jsonschema.json'']"] example_expected by simp
  show ?thesis using a b c frame example_run unfolding wOut_def by blast
qed


section \<open>A failing run of the bundling tool\<close>

lemma bundleSchema_exec_fails:
  assumes "execRun B ''jsonschema'' [''bundle'', schema, ''--resolve'', inDir, ''--without-id'']
           = (out, diag, Some err)"
  shows "bundleSchema B schema inDir bundlesDir w
         = (Some (Errorf ''failed running jsonschema %s: %w''
                    [stringsJoin [''bundle'', schema, ''--resolve'', inDir, ''--without-id''] '' '']
                    (Some err)),
            w\<lparr>stderr := stderr w @ [diag @ [CHR 0x0A]]\<rparr>)"
  using assms by (simp add: bundleSchema_def jsonschemaExec_def)

lemma bundleAll_append:
  "bundleAll B pre w0 = (None, w) \<Longrightarrow> bundleAll B (pre @ schemas) w0 = bundleAll B schemas w"
proof (induction pre arbitrary: w0)
  case Nil
  then show ?case by simp
next
  case (Cons s pre)
  obtain r w1 where b: "bundleSchema B s (bundleInDir B) (bundleOutDir B) w0 = (r, w1)"
    by (cases "bundleSchema B s (bundleInDir B) (bundleOutDir B) w0")
  show ?case
  proof (cases r)
    case None
    then show ?thesis using Cons b by simp
  next
    case (Some e)
    then show ?thesis using Cons.prems b by simp
  qed
qed

text \<open>
  C8, as amended. If the bundling tool fails on a schema, after the schemas before it
  have been bundled, then \<open>run\<close> returns an error that names the path of this schema
  and wraps the error of running the command; the diagnostic output of the tool is
  printed to the standard error of the program and is not part of the error; no file
  is written for this schema or for a later one.
\<close>

theorem C8_bundling_error:
  assumes "bundleAll B before w0 = (None, w)"
    and "execRun B ''jsonschema'' [''bundle'', schema, ''--resolve'', bundleInDir B, ''--without-id'']
         = (out, diag, Some err)"
  shows "\<exists>e. bundleAll B (before @ schema # rest) w0
               = (Some e, w\<lparr>stderr := stderr w @ [diag @ [CHR 0x0A]]\<rparr>)
            \<and> e = Errorf ''bundling %q failed: %w'' [schema]
                    (Some (Errorf ''failed running jsonschema %s: %w''
                             [stringsJoin [''bundle'', schema, ''--resolve'', bundleInDir B, ''--without-id''] '' '']
                             (Some err)))
            \<and> schema \<in> set (errorArgs e)
            \<and> files (w\<lparr>stderr := stderr w @ [diag @ [CHR 0x0A]]\<rparr>) = files w"
proof -
  have "bundleAll B (before @ schema # rest) w0 = bundleAll B (schema # rest) w"
    using assms(1) by (rule bundleAll_append)
  then show ?thesis using bundleSchema_exec_fails[OF assms(2)] by simp
qed

theorem C8_bundling_error_witness:
  "bundleAll failingBundler [] \<lparr> files = Map.empty, stderr = [] \<rparr>
     = (None, \<lparr> files = Map.empty, stderr = [] \<rparr>)
   \<and> (\<exists>e. bundleAll failingBundler [''3.4.1/jsonschema/manifest.jsonschema.json'']
               \<lparr> files = Map.empty, stderr = [] \<rparr>
             = (Some e, \<lparr> files = Map.empty,
                          stderr = [''error: could not resolve the reference'' @ [CHR 0x0A]] \<rparr>)
          \<and> ''3.4.1/jsonschema/manifest.jsonschema.json'' \<in> set (errorArgs e))"
proof -
  have h1: "bundleAll failingBundler [] \<lparr> files = Map.empty, stderr = [] \<rparr>
     = (None, \<lparr> files = Map.empty, stderr = [] \<rparr>)" by simp
  have h2: "execRun failingBundler ''jsonschema''
              [''bundle'', ''3.4.1/jsonschema/manifest.jsonschema.json'', ''--resolve'',
               bundleInDir failingBundler, ''--without-id'']
            = ([], ''error: could not resolve the reference'', Some (External ''exit status 1''))"
    by (simp add: failingBundler_def)
  from C8_bundling_error[OF h1 h2, of "[]"] show ?thesis
  proof (elim exE conjE)
    fix e
    assume a: "bundleAll failingBundler ([] @ [''3.4.1/jsonschema/manifest.jsonschema.json''])
                 \<lparr> files = Map.empty, stderr = [] \<rparr>
               = (Some e, \<lparr> files = Map.empty, stderr = [] \<rparr>
                    \<lparr>stderr := stderr \<lparr> files = Map.empty, stderr = [] \<rparr>
                                 @ [''error: could not resolve the reference'' @ [CHR 0x0A]]\<rparr>)"
      and m: "''3.4.1/jsonschema/manifest.jsonschema.json'' \<in> set (errorArgs e)"
    have "bundleAll failingBundler [''3.4.1/jsonschema/manifest.jsonschema.json'']
               \<lparr> files = Map.empty, stderr = [] \<rparr>
             = (Some e, \<lparr> files = Map.empty,
                          stderr = [''error: could not resolve the reference'' @ [CHR 0x0A]] \<rparr>)"
      using a by simp
    then show ?thesis using h1 m by (intro conjI exI[of _ e])
  qed
qed

text \<open>
  C8, as stated, fails: the diagnostic of the tool is in no text of the error that is
  returned; it is on the standard error of the program.
\<close>

theorem C8_diagnostic_counterexample:
  "fst (bundleRun failingBundler \<lparr> files = Map.empty, stderr = [] \<rparr>)
     = Some (Errorf ''bundling %q failed: %w'' [''3.4.1/jsonschema/manifest.jsonschema.json'']
               (Some (Errorf ''failed running jsonschema %s: %w''
                        [''bundle 3.4.1/jsonschema/manifest.jsonschema.json --resolve 3.4.1/jsonschema --without-id'']
                        (Some (External ''exit status 1'')))))
   \<and> stderr (snd (bundleRun failingBundler \<lparr> files = Map.empty, stderr = [] \<rparr>))
       = [''error: could not resolve the reference'' @ [CHR 0x0A]]
   \<and> list_all (\<lambda>t. \<not> sublist ''could not resolve'' t)
        (errorTexts
           (Errorf ''bundling %q failed: %w'' [''3.4.1/jsonschema/manifest.jsonschema.json'']
              (Some (Errorf ''failed running jsonschema %s: %w''
                       [''bundle 3.4.1/jsonschema/manifest.jsonschema.json --resolve 3.4.1/jsonschema --without-id'']
                       (Some (External ''exit status 1''))))))"
  by code_simp

end
